theory Spec2Isabelle
  imports Main "HOL-Library.Sublist"
begin

section \<open>Completion detector (\<open>waitForResponse\<close>, server.js 359--566)\<close>

text \<open>
  The detector runs inside the page: a \<open>MutationObserver\<close> callback and a
  \<open>setInterval\<close> callback share \<open>lastMutationTime\<close> and \<open>stableCount\<close>.
  Both callbacks are JavaScript turns, so the run of the detector is the list of
  callbacks the page delivers, each with the reading of \<open>Date.now()\<close> it sees.
\<close>

definition STABLE_CHECKS_NEEDED :: nat where
  "STABLE_CHECKS_NEEDED = 5"

definition STABLE_DURATION_MS :: int where
  "STABLE_DURATION_MS = 1500"

record signals =
  copyButton :: bool
  stopButton :: bool
  textStable :: bool
  cursorGone :: bool

text \<open>
  What the selectors find at one poll: \<open>copyShown\<close> is ``a Copy button exists in the
  last message and is laid out'', \<open>stopShown\<close> is ``a Stop button exists and is laid
  out'', \<open>typingShown\<close> the same for the typing indicator.
\<close>

record dom_reading =
  copyShown :: bool
  stopShown :: bool
  typingShown :: bool

datatype mutation_type = ChildList | CharacterData | Attributes

datatype dom_event =
    Mutations int "mutation_type list"
  | Poll int dom_reading

record detector =
  startTime :: int
  lastMutationTime :: int
  stableCount :: nat

datatype generation = Completed signals | TimedOut

datatype monitoring = Polling detector | Resolved generation

definition initDetector :: "int \<Rightarrow> detector" where
  "initDetector now = \<lparr>startTime = now, lastMutationTime = now, stableCount = 0\<rparr>"

definition checkCompletionSignals :: "detector \<Rightarrow> int \<Rightarrow> dom_reading \<Rightarrow> signals" where
  "checkCompletionSignals st now r =
     \<lparr>copyButton = copyShown r,
      stopButton = (\<not> stopShown r),
      textStable = (now - lastMutationTime st \<ge> STABLE_DURATION_MS),
      cursorGone = (\<not> typingShown r)\<rparr>"

definition isComplete :: "signals \<Rightarrow> bool" where
  "isComplete s = (copyButton s \<or> (stopButton s \<and> textStable s \<and> cursorGone s))"

definition relevantMutation :: "mutation_type list \<Rightarrow> bool" where
  "relevantMutation ms = list_ex (\<lambda>m. m = ChildList \<or> m = CharacterData) ms"

definition onMutations :: "int \<Rightarrow> mutation_type list \<Rightarrow> detector \<Rightarrow> detector" where
  "onMutations now ms st =
     (if relevantMutation ms then st\<lparr>lastMutationTime := now, stableCount := 0\<rparr> else st)"

definition onPoll :: "int \<Rightarrow> int \<Rightarrow> dom_reading \<Rightarrow> detector \<Rightarrow> monitoring" where
  "onPoll maxWaitMs now r st =
     (if now - startTime st \<ge> maxWaitMs then Resolved TimedOut
      else let sg = checkCompletionSignals st now r in
        if isComplete sg then
          (if stableCount st + 1 \<ge> STABLE_CHECKS_NEEDED then Resolved (Completed sg)
           else Polling (st\<lparr>stableCount := stableCount st + 1\<rparr>))
        else Polling (st\<lparr>stableCount := 0\<rparr>))"

fun onEvent :: "int \<Rightarrow> dom_event \<Rightarrow> detector \<Rightarrow> monitoring" where
  "onEvent maxWaitMs (Mutations now ms) st = Polling (onMutations now ms st)"
| "onEvent maxWaitMs (Poll now r) st = onPoll maxWaitMs now r st"

text \<open>
  The promise of \<open>page.evaluate\<close> stays pending until a poll resolves it; a list of
  callbacks that ends before that leaves the detector \<open>Polling\<close>.
\<close>

fun monitor :: "int \<Rightarrow> detector \<Rightarrow> dom_event list \<Rightarrow> monitoring" where
  "monitor maxWaitMs st [] = Polling st"
| "monitor maxWaitMs st (e # es) =
     (case onEvent maxWaitMs e st of
        Polling st' \<Rightarrow> monitor maxWaitMs st' es
      | Resolved g \<Rightarrow> Resolved g)"

text \<open>
  An event that keeps a run of complete polls going, seen from detector state \<open>st\<close>:
  a poll on which the completion condition holds, or a mutation batch that the observer
  callback ignores.
\<close>

fun quietEvent :: "detector \<Rightarrow> dom_event \<Rightarrow> bool" where
  "quietEvent st (Poll now r) = isComplete (checkCompletionSignals st now r)"
| "quietEvent st (Mutations now ms) = (\<not> relevantMutation ms)"

fun isPoll :: "dom_event \<Rightarrow> bool" where
  "isPoll (Poll now r) = True"
| "isPoll (Mutations now ms) = False"

subsection \<open>Extraction after detection\<close>

text \<open>
  JavaScript strings are sequences of code units; a \<open>char\<close> here is a code unit below
  256. \<open>String.prototype.trim\<close> and the regular expression class \<open>\s\<close> remove the
  same code units: TAB, LF, VT, FF, CR, SPACE and NBSP in this range.
\<close>

definition isWhiteSpace :: "char \<Rightarrow> bool" where
  "isWhiteSpace c =
     (c = CHR 0x09 \<or> c = CHR 0x0A \<or> c = CHR 0x0B \<or> c = CHR 0x0C \<or> c = CHR 0x0D
      \<or> c = CHR 0x20 \<or> c = CHR 0xA0)"

definition trim :: "string \<Rightarrow> string" where
  "trim s = rev (dropWhile isWhiteSpace (rev (dropWhile isWhiteSpace s)))"

text \<open>
  One \<open>message-content\<close> element as the extraction reads it: the text of its first
  code block and of its \<open>.markdown\<close> container, when present, and its whole text.
\<close>

record message_content =
  codeBlock :: "string option"
  markdown :: "string option"
  textContent :: string

datatype wait_error =
    SelectorTimeout
  | NoMessageContentFound
  | NoMessagesAfterWaiting
  | ResponseTooShort nat
  | FailedToGetResponse wait_error

definition longEnough :: "string option \<Rightarrow> bool" where
  "longEnough el = (case el of None \<Rightarrow> False | Some t \<Rightarrow> length (trim t) > 50)"

text \<open>Lines 506--521.\<close>

definition extractText :: "message_content \<Rightarrow> string" where
  "extractText el =
     (case codeBlock el of
        Some c \<Rightarrow> if longEnough (Some c) then trim c
                  else (case markdown el of
                          Some m \<Rightarrow> if longEnough (Some m) then trim m else trim (textContent el)
                        | None \<Rightarrow> trim (textContent el))
      | None \<Rightarrow> (case markdown el of
                   Some m \<Rightarrow> if longEnough (Some m) then trim m else trim (textContent el)
                 | None \<Rightarrow> trim (textContent el)))"

text \<open>Lines 545--554, the extraction of the recovery attempt.\<close>

definition recoverText :: "message_content \<Rightarrow> string" where
  "recoverText el =
     (if longEnough (codeBlock el) then (case codeBlock el of Some c \<Rightarrow> trim c | None \<Rightarrow> [])
      else (case markdown el of Some m \<Rightarrow> trim m | None \<Rightarrow> trim (textContent el)))"

text \<open>Lines 497--533: the extraction that follows the detector, whatever it resolved with.\<close>

definition extractResponse :: "message_content list \<Rightarrow> wait_error + string" where
  "extractResponse messages =
     (if messages = [] then Inl NoMessagesAfterWaiting
      else let t = extractText (last messages) in
        if t = [] \<or> length t < 50 then Inl (ResponseTooShort (length t)) else Inr t)"

text \<open>Lines 535--565: the \<open>catch\<close> block, reading the page once more.\<close>

definition recoverResponse :: "wait_error \<Rightarrow> message_content list \<Rightarrow> wait_error + string" where
  "recoverResponse err messages =
     (if messages = [] then Inl (FailedToGetResponse err)
      else let t = recoverText (last messages) in
        if t \<noteq> [] \<and> length t > 50 then Inr t else Inl (FailedToGetResponse err))"

text \<open>
  \<open>waitForResponse\<close>. The browser supplies: whether \<open>message-content\<close> appeared within
  the selector timeout, the clock and the messages when the detector starts, the
  callbacks it then receives, and the messages present at extraction and at recovery.
  The result is \<open>None\<close> while the detector's promise is still pending.
\<close>

definition waitForResponse ::
  "int \<Rightarrow> bool \<Rightarrow> int \<Rightarrow> message_content list \<Rightarrow> dom_event list \<Rightarrow>
   message_content list \<Rightarrow> message_content list \<Rightarrow> (wait_error + string) option" where
  "waitForResponse timeoutMs appeared now atStart evs atExtract atRecovery =
     (if \<not> appeared then Some (recoverResponse SelectorTimeout atRecovery)
      else if atStart = [] then Some (recoverResponse NoMessageContentFound atRecovery)
      else (case monitor timeoutMs (initDetector now) evs of
              Polling st \<Rightarrow> None
            | Resolved generationComplete \<Rightarrow>
                Some (case extractResponse atExtract of
                        Inl err \<Rightarrow> recoverResponse err atRecovery
                      | Inr t \<Rightarrow> Inr t)))"

section \<open>Request coordinator (\<open>sendToGemini\<close>, server.js 568--706)\<close>

text \<open>
  Node runs one turn at a time: the code between two \<open>await\<close>s is atomic. Each
  function below is one such turn of \<open>sendToGemini\<close> or of its request promise, and the
  server state is passed through explicitly. Promises are numbered in creation order;
  calls of \<open>sendToGemini\<close> likewise.

  Three things come from outside server.js and are parameters: the hex MD5 digest of
  \<open>crypto\<close>, and the two prompt templates (functions of the expected count whose
  bodies are fixed text).
\<close>

record externals =
  md5hex :: "string \<Rightarrow> string"
  generateSystemPrompt :: "int \<Rightarrow> string"
  generateShortNotesPrompt :: "int \<Rightarrow> string"

definition CACHE_EXPIRY_MS :: int where
  "CACHE_EXPIRY_MS = 300000"

record cache_entry =
  response :: string
  timestamp :: int

datatype send_error =
    PageError
  | WaitFailed wait_error
  | OverallTimeout
  | InvalidResponse nat

datatype promise_state =
    InFlight
  | ErrorDelay send_error int
  | Fulfilled string
  | Rejected send_error

record request =
  cacheKeyOf :: string
  fullPrompt :: string
  pasted :: bool
  state :: promise_state

datatype caller =
    AwaitOwn nat string
  | AwaitActive nat
  | SuccessDelay string string int
  | Returned string
  | Threw send_error

record premium_counter =
  date :: string
  count :: nat

record server =
  isInitialized :: bool
  responseCache :: "string \<rightharpoonup> cache_entry"
  activeRequest :: "nat option"
  activeRequestText :: "string option"
  isPaused :: bool
  pauseTimestamp :: "int option"
  premium :: premium_counter
  requests :: "request list"
  callers :: "caller list"
  sessionWrites :: "string list"

definition generateCacheKey :: "externals \<Rightarrow> string \<Rightarrow> string" where
  "generateCacheKey ext t = md5hex ext t"

definition cleanCache :: "int \<Rightarrow> (string \<rightharpoonup> cache_entry) \<Rightarrow> (string \<rightharpoonup> cache_entry)" where
  "cleanCache now cache =
     (\<lambda>key. case cache key of
              None \<Rightarrow> None
            | Some v \<Rightarrow> if now - timestamp v > CACHE_EXPIRY_MS then None else Some v)"

text \<open>
  Lines 612--688: a new request promise. Its body runs up to its first \<open>await\<close>, then
  the slot is pointed at it and the caller awaits it.
\<close>

definition startRequest :: "string \<Rightarrow> string \<Rightarrow> string \<Rightarrow> server \<Rightarrow> server" where
  "startRequest cacheKey t systemPrompt s =
     s\<lparr>requests := requests s @
          [\<lparr>cacheKeyOf = cacheKey, fullPrompt = systemPrompt @ [CHR 0x0A, CHR 0x0A] @ t,
            pasted = False, state = InFlight\<rparr>],
       activeRequest := Some (length (requests s)),
       activeRequestText := Some cacheKey,
       callers := callers s @ [AwaitOwn (length (requests s)) cacheKey]\<rparr>"

text \<open>Lines 585--691: \<open>sendToGemini\<close> from its entry to its first \<open>await\<close> or \<open>return\<close>.\<close>

definition sendToGemini :: "externals \<Rightarrow> string \<Rightarrow> string \<Rightarrow> int \<Rightarrow> server \<Rightarrow> server" where
  "sendToGemini ext t systemPrompt now s0 =
     (let cacheKey = generateCacheKey ext t;
          s = s0\<lparr>responseCache := cleanCache now (responseCache s0)\<rparr>
      in case responseCache s cacheKey of
           Some cached \<Rightarrow> s\<lparr>callers := callers s @ [Returned (response cached)]\<rparr>
         | None \<Rightarrow>
             (case activeRequest s of
                Some p \<Rightarrow>
                  if activeRequestText s = Some cacheKey
                  then s\<lparr>callers := callers s @ [AwaitActive p]\<rparr>
                  else startRequest cacheKey t systemPrompt s
              | None \<Rightarrow> startRequest cacheKey t systemPrompt s))"

text \<open>Lines 634--645: the request promise pastes its prompt into the session.\<close>

definition paste :: "nat \<Rightarrow> server \<Rightarrow> server" where
  "paste rid s =
     (if rid < length (requests s) \<and> state (requests s ! rid) = InFlight
         \<and> \<not> pasted (requests s ! rid)
      then s\<lparr>requests := (requests s)[rid := (requests s ! rid)\<lparr>pasted := True\<rparr>],
             sessionWrites := sessionWrites s @ [fullPrompt (requests s ! rid)]\<rparr>
      else s)"

text \<open>
  The continuations of the callers that await promise \<open>rid\<close> when it fulfils: its
  creator goes on to the timer of line 694, a caller attached at line 602 returns.
\<close>

fun onFulfilled :: "nat \<Rightarrow> string \<Rightarrow> int \<Rightarrow> caller \<Rightarrow> caller" where
  "onFulfilled rid result now (AwaitOwn p cacheKey) =
     (if p = rid then SuccessDelay result cacheKey (now + 2000) else AwaitOwn p cacheKey)"
| "onFulfilled rid result now (AwaitActive p) =
     (if p = rid then Returned result else AwaitActive p)"
| "onFulfilled rid result now c = c"

text \<open>
  Lines 654--683: the awaited browser steps of request \<open>rid\<close> end, with the text that
  won the race of line 655 or with the error one of them threw. A text passes the
  check of line 662 and is cached; anything else enters the \<open>catch\<close> block and its timer.
\<close>

definition settle :: "nat \<Rightarrow> send_error + string \<Rightarrow> int \<Rightarrow> server \<Rightarrow> server" where
  "settle rid outcome now s =
     (if rid < length (requests s) \<and> state (requests s ! rid) = InFlight then
        (case outcome of
           Inl err \<Rightarrow>
             s\<lparr>requests := (requests s)[rid := (requests s ! rid)\<lparr>state := ErrorDelay err (now + 5000)\<rparr>]\<rparr>
         | Inr r \<Rightarrow>
             if r = [] \<or> length r < 50
             then s\<lparr>requests := (requests s)[rid := (requests s ! rid)
                        \<lparr>state := ErrorDelay (InvalidResponse (length r)) (now + 5000)\<rparr>]\<rparr>
             else s\<lparr>responseCache := (responseCache s)
                        (cacheKeyOf (requests s ! rid) \<mapsto> \<lparr>response = r, timestamp = now\<rparr>),
                    requests := (requests s)[rid := (requests s ! rid)\<lparr>state := Fulfilled r\<rparr>],
                    callers := map (onFulfilled rid r now) (callers s)\<rparr>)
      else s)"

text \<open>
  The continuations when promise \<open>rid\<close> rejects, in the order the callers began to
  await: lines 696--704 for its creator, lines 604--609 for an attached caller.
  The pair is \<open>(activeRequest, activeRequestText)\<close>.
\<close>

fun onRejected ::
  "nat \<Rightarrow> send_error \<Rightarrow> caller list \<Rightarrow> nat option \<times> string option \<Rightarrow>
   caller list \<times> nat option \<times> string option" where
  "onRejected rid err [] slot = ([], slot)"
| "onRejected rid err (AwaitOwn p cacheKey # cs) slot =
     (if p = rid then
        (let (cs', slot') =
           onRejected rid err cs (if snd slot = Some cacheKey then (None, None) else slot)
         in (Threw err # cs', slot'))
      else (let (cs', slot') = onRejected rid err cs slot in (AwaitOwn p cacheKey # cs', slot')))"
| "onRejected rid err (AwaitActive p # cs) slot =
     (if p = rid then
        (let (cs', slot') = onRejected rid err cs (None, None) in (Threw err # cs', slot'))
      else (let (cs', slot') = onRejected rid err cs slot in (AwaitActive p # cs', slot')))"
| "onRejected rid err (c # cs) slot =
     (let (cs', slot') = onRejected rid err cs slot in (c # cs', slot'))"

text \<open>Lines 681--682: the timer of the \<open>catch\<close> block fires and the promise rejects.\<close>

definition errorDelayElapsed :: "nat \<Rightarrow> int \<Rightarrow> server \<Rightarrow> server" where
  "errorDelayElapsed rid now s =
     (if rid < length (requests s) then
        (case state (requests s ! rid) of
           ErrorDelay err due \<Rightarrow>
             if now \<ge> due then
               (let (cs, slot) =
                  onRejected rid err (callers s) (activeRequest s, activeRequestText s)
                in s\<lparr>requests := (requests s)[rid := (requests s ! rid)\<lparr>state := Rejected err\<rparr>],
                     callers := cs,
                     activeRequest := fst slot,
                     activeRequestText := snd slot\<rparr>)
             else s
         | _ \<Rightarrow> s)
      else s)"

text \<open>Lines 694--704: the timer after a success fires; \<open>finally\<close> runs and the call returns.\<close>

definition successDelayElapsed :: "nat \<Rightarrow> int \<Rightarrow> server \<Rightarrow> server" where
  "successDelayElapsed cid now s =
     (if cid < length (callers s) then
        (case callers s ! cid of
           SuccessDelay result cacheKey due \<Rightarrow>
             if now \<ge> due then
               (let s' = (if activeRequestText s = Some cacheKey
                          then s\<lparr>activeRequest := None, activeRequestText := None\<rparr> else s)
                in s'\<lparr>callers := (callers s)[cid := Returned result]\<rparr>)
             else s
         | _ \<Rightarrow> s)
      else s)"

section \<open>HTTP handlers (server.js 891--1071)\<close>

text \<open>
  The body of a \<open>POST /api/generate-mcqs\<close> request. An absent or empty \<open>text\<close> or
  \<open>content_type\<close> is the empty string (both are falsy); an absent \<open>expected_mcqs\<close> is
  \<open>None\<close>.
\<close>

record generate_body =
  body_text :: string
  expected_mcqs :: "int option"
  content_type :: string

datatype reply =
    TextRequired
  | NotInitialized
  | Paused "int option"

text \<open>
  Lines 37--72: the daily counter file. A file of another day, or none (an empty
  \<open>date\<close>), restarts the count.
\<close>

definition incrementRequestCounter :: "string \<Rightarrow> premium_counter \<Rightarrow> premium_counter" where
  "incrementRequestCounter today c =
     (if date c \<noteq> today then \<lparr>date = today, count = 1\<rparr> else c\<lparr>count := count c + 1\<rparr>)"

definition expectedMcqs :: "generate_body \<Rightarrow> int" where
  "expectedMcqs b = (case expected_mcqs b of None \<Rightarrow> 10 | Some n \<Rightarrow> if n = 0 then 10 else n)"

definition systemPromptFor :: "externals \<Rightarrow> generate_body \<Rightarrow> string" where
  "systemPromptFor ext b =
     (if content_type b = ''short_notes'' then generateShortNotesPrompt ext (expectedMcqs b)
      else generateSystemPrompt ext (expectedMcqs b))"

text \<open>
  Lines 961--1025: the handler up to its \<open>await sendToGemini(...)\<close>. It either replies
  at once, or has entered \<open>sendToGemini\<close> (reply \<open>None\<close> so far).
\<close>

definition generate_mcqs ::
  "externals \<Rightarrow> generate_body \<Rightarrow> string \<Rightarrow> int \<Rightarrow> server \<Rightarrow> reply option \<times> server" where
  "generate_mcqs ext b today now s =
     (if body_text b = [] then (Some TextRequired, s)
      else if \<not> isInitialized s then (Some NotInitialized, s)
      else if isPaused s then (Some (Paused (pauseTimestamp s)), s)
      else (None,
            sendToGemini ext (body_text b) (systemPromptFor ext b) now
              (s\<lparr>premium := incrementRequestCounter today (premium s)\<rparr>)))"

text \<open>Lines 891--915 and 918--950.\<close>

definition pause :: "int \<Rightarrow> server \<Rightarrow> server" where
  "pause now s = (if isPaused s then s else s\<lparr>isPaused := True, pauseTimestamp := Some now\<rparr>)"

definition resume :: "int \<Rightarrow> server \<Rightarrow> server" where
  "resume now s = (if \<not> isPaused s then s else s\<lparr>isPaused := False, pauseTimestamp := None\<rparr>)"

subsection \<open>Runs of the server\<close>

datatype event =
    Generate generate_body string int
  | Paste nat
  | Settle nat "send_error + string" int
  | ErrorDelayElapsed nat int
  | SuccessDelayElapsed nat int
  | PauseRequest int
  | ResumeRequest int

fun step :: "externals \<Rightarrow> event \<Rightarrow> server \<Rightarrow> server" where
  "step ext (Generate b today now) s = snd (generate_mcqs ext b today now s)"
| "step ext (Paste rid) s = paste rid s"
| "step ext (Settle rid outcome now) s = settle rid outcome now s"
| "step ext (ErrorDelayElapsed rid now) s = errorDelayElapsed rid now s"
| "step ext (SuccessDelayElapsed cid now) s = successDelayElapsed cid now s"
| "step ext (PauseRequest now) s = pause now s"
| "step ext (ResumeRequest now) s = resume now s"

fun run :: "externals \<Rightarrow> event list \<Rightarrow> server \<Rightarrow> server" where
  "run ext [] s = s"
| "run ext (e # es) s = run ext es (step ext e s)"

text \<open>The state in which \<open>startServer\<close> begins to listen (lines 1074--1094).\<close>

definition listening :: server where
  "listening =
     \<lparr>isInitialized = True, responseCache = Map.empty, activeRequest = None,
      activeRequestText = None, isPaused = False, pauseTimestamp = None,
      premium = \<lparr>date = [], count = 0\<rparr>, requests = [], callers = [], sessionWrites = []\<rparr>"

text \<open>The requests whose promise has not settled, and those among them for one fingerprint.\<close>

definition unsettled :: "request \<Rightarrow> bool" where
  "unsettled r = (case state r of InFlight \<Rightarrow> True | ErrorDelay err due \<Rightarrow> True | _ \<Rightarrow> False)"

definition inFlight :: "server \<Rightarrow> request list" where
  "inFlight s = filter unsettled (requests s)"

definition inFlightFor :: "string \<Rightarrow> server \<Rightarrow> request list" where
  "inFlightFor cacheKey s = filter (\<lambda>r. cacheKeyOf r = cacheKey) (inFlight s)"

text \<open>What a caller is waiting for, and the raw text it has been given, if any.\<close>

fun awaits :: "nat \<Rightarrow> caller \<Rightarrow> bool" where
  "awaits p (AwaitOwn q cacheKey) = (q = p)"
| "awaits p (AwaitActive q) = (q = p)"
| "awaits p c = False"

fun received :: "caller \<Rightarrow> string option" where
  "received (SuccessDelay result cacheKey due) = Some result"
| "received (Returned result) = Some result"
| "received c = None"

text \<open>The events that belong to an exchange already started.\<close>

fun exchangeEvent :: "event \<Rightarrow> bool" where
  "exchangeEvent (Paste rid) = True"
| "exchangeEvent (Settle rid outcome now) = True"
| "exchangeEvent (ErrorDelayElapsed rid now) = True"
| "exchangeEvent (SuccessDelayElapsed cid now) = True"
| "exchangeEvent e = False"

subsection \<open>Sample inputs\<close>

text \<open>
  Concrete externals for the examples: the MD5 digests of the two texts the examples
  submit, and two short stand-ins for the prompt templates.
\<close>

definition sampleDigest :: "string \<Rightarrow> string" where
  "sampleDigest t =
     (if t = ''alpha'' then ''2c1743a391305fbf367df8e4f069f9f9''
      else if t = ''beta'' then ''987bcab01b929eb2c07877b224215c92''
      else [])"

definition sampleExternals :: externals where
  "sampleExternals =
     \<lparr>md5hex = sampleDigest,
      generateSystemPrompt = (\<lambda>n. ''Generate MCQs''),
      generateShortNotesPrompt = (\<lambda>n. ''Generate short notes'')\<rparr>"

definition sampleResponse :: string where
  \<open>sampleResponse = ''[{"id":1,"question":"Q?","options":["a","b","c","d"]}]''\<close>

definition alphaBody :: generate_body where
  "alphaBody = \<lparr>body_text = ''alpha'', expected_mcqs = None, content_type = []\<rparr>"

definition betaBody :: generate_body where
  "betaBody = \<lparr>body_text = ''beta'', expected_mcqs = None, content_type = []\<rparr>"

section \<open>\<open>JSON.parse\<close>\<close>

text \<open>
  \<open>cleanJsonResponse\<close> validates with the built-in \<open>JSON.parse\<close>. The model follows the
  JSON grammar (ECMA-404): a value between optional whitespace, nothing else. Numbers
  keep their lexeme (no floating point is modelled), strings are decoded to code
  units, object members are kept in source order. The recursion is on a fuel argument
  that starts above the length of the text.
\<close>

datatype json =
    JNull
  | JBool bool
  | JNumber string
  | JString "nat list"
  | JArray "json list"
  | JObject "(nat list \<times> json) list"

definition isJsonWs :: "char \<Rightarrow> bool" where
  "isJsonWs c = (c = CHR 0x20 \<or> c = CHR 0x09 \<or> c = CHR 0x0A \<or> c = CHR 0x0D)"

definition skipWs :: "string \<Rightarrow> string" where
  "skipWs s = dropWhile isJsonWs s"

definition trimJsonWs :: "string \<Rightarrow> string" where
  "trimJsonWs s = rev (skipWs (rev (skipWs s)))"

definition isDigit :: "char \<Rightarrow> bool" where
  "isDigit c = (c \<in> set ''0123456789'')"

definition hexValue :: "char \<Rightarrow> nat option" where
  "hexValue c = map_of (zip ''0123456789abcdef'' [0..<16] @ zip ''ABCDEF'' [10..<16]) c"

definition unescape :: "char \<Rightarrow> nat option" where
  "unescape c =
     map_of [(CHR 0x22, 34), (CHR 0x5C, 92), (CHR ''/'', 47), (CHR ''b'', 8),
             (CHR ''f'', 12), (CHR ''n'', 10), (CHR ''r'', 13), (CHR ''t'', 9)] c"

text \<open>The characters of a string after its opening quote, up to the closing one.\<close>

fun parseString :: "string \<Rightarrow> (nat list \<times> string) option" where
  "parseString [] = None"
| "parseString (c # cs) =
     (if c = CHR 0x22 then Some ([], cs)
      else if c = CHR 0x5C then
        (case cs of
           [] \<Rightarrow> None
         | e # r \<Rightarrow>
             if e = CHR ''u'' then
               (case r of
                  a # b # x # d # r' \<Rightarrow>
                    (case (hexValue a, hexValue b, hexValue x, hexValue d) of
                       (Some h3, Some h2, Some h1, Some h0) \<Rightarrow>
                         map_option (\<lambda>(u, rest). ((((h3 * 16 + h2) * 16 + h1) * 16 + h0) # u, rest))
                           (parseString r')
                     | _ \<Rightarrow> None)
                | _ \<Rightarrow> None)
             else (case unescape e of
                     None \<Rightarrow> None
                   | Some n \<Rightarrow> map_option (\<lambda>(u, rest). (n # u, rest)) (parseString r)))
      else if (of_char c :: nat) < 32 then None
      else map_option (\<lambda>(u, rest). (of_char c # u, rest)) (parseString cs))"

text \<open>The parts of a number: \<open>-? (0 | [1-9][0-9]*) (. [0-9]+)? ([eE] [+-]? [0-9]+)?\<close>.\<close>

definition parseInt :: "string \<Rightarrow> (string \<times> string) option" where
  "parseInt s =
     (let ds = takeWhile isDigit s in
      if ds = [] then None
      else if hd ds = CHR ''0'' then Some (''0'', tl s)
      else Some (ds, dropWhile isDigit s))"

definition parseFrac :: "string \<Rightarrow> (string \<times> string) option" where
  "parseFrac s =
     (case s of
        [] \<Rightarrow> Some ([], s)
      | c # r \<Rightarrow>
          if c = CHR ''.'' then
            (if takeWhile isDigit r = [] then None
             else Some (c # takeWhile isDigit r, dropWhile isDigit r))
          else Some ([], s))"

definition parseSign :: "string \<Rightarrow> string \<times> string" where
  "parseSign s =
     (case s of
        [] \<Rightarrow> ([], s)
      | c # r \<Rightarrow> if c = CHR ''+'' \<or> c = CHR ''-'' then ([c], r) else ([], s))"

definition parseExp :: "string \<Rightarrow> (string \<times> string) option" where
  "parseExp s =
     (case s of
        [] \<Rightarrow> Some ([], s)
      | c # r \<Rightarrow>
          if c = CHR ''e'' \<or> c = CHR ''E'' then
            (let (sg, r1) = parseSign r in
             if takeWhile isDigit r1 = [] then None
             else Some (c # sg @ takeWhile isDigit r1, dropWhile isDigit r1))
          else Some ([], s))"

definition parseNumber :: "string \<Rightarrow> (string \<times> string) option" where
  "parseNumber s =
     (let (minus, s1) = (case s of [] \<Rightarrow> ([], s)
                         | c # r \<Rightarrow> if c = CHR ''-'' then ([c], r) else ([], s))
      in case parseInt s1 of
           None \<Rightarrow> None
         | Some (i, s2) \<Rightarrow>
             (case parseFrac s2 of
                None \<Rightarrow> None
              | Some (f, s3) \<Rightarrow>
                  (case parseExp s3 of
                     None \<Rightarrow> None
                   | Some (e, s4) \<Rightarrow> Some (minus @ i @ f @ e, s4))))"

fun parseValue :: "nat \<Rightarrow> string \<Rightarrow> (json \<times> string) option"
  and parseElements :: "nat \<Rightarrow> string \<Rightarrow> (json list \<times> string) option"
  and parseMembers :: "nat \<Rightarrow> string \<Rightarrow> ((nat list \<times> json) list \<times> string) option"
where
  "parseValue 0 s = None"
| "parseValue (Suc n) [] = None"
| "parseValue (Suc n) (c # cs) =
     (if c = CHR ''['' then
        (case skipWs cs of
           [] \<Rightarrow> None
         | d # r \<Rightarrow>
             if d = CHR '']'' then Some (JArray [], r)
             else map_option (\<lambda>(vs, rest). (JArray vs, rest)) (parseElements n (d # r)))
      else if c = CHR ''{'' then
        (case skipWs cs of
           [] \<Rightarrow> None
         | d # r \<Rightarrow>
             if d = CHR ''}'' then Some (JObject [], r)
             else map_option (\<lambda>(ms, rest). (JObject ms, rest)) (parseMembers n (d # r)))
      else if c = CHR 0x22 then map_option (\<lambda>(u, rest). (JString u, rest)) (parseString cs)
      else if take 4 (c # cs) = ''true'' then Some (JBool True, drop 4 (c # cs))
      else if take 5 (c # cs) = ''false'' then Some (JBool False, drop 5 (c # cs))
      else if take 4 (c # cs) = ''null'' then Some (JNull, drop 4 (c # cs))
      else map_option (\<lambda>(lexeme, rest). (JNumber lexeme, rest)) (parseNumber (c # cs)))"
| "parseElements 0 s = None"
| "parseElements (Suc n) s =
     (case parseValue n s of
        None \<Rightarrow> None
      | Some (v, r) \<Rightarrow>
          (case skipWs r of
             [] \<Rightarrow> None
           | d # r' \<Rightarrow>
               if d = CHR '','' then
                 map_option (\<lambda>(vs, rest). (v # vs, rest)) (parseElements n (skipWs r'))
               else if d = CHR '']'' then Some ([v], r')
               else None))"
| "parseMembers 0 s = None"
| "parseMembers (Suc n) s =
     (case s of
        [] \<Rightarrow> None
      | q # r \<Rightarrow>
          if q \<noteq> CHR 0x22 then None
          else
            (case parseString r of
               None \<Rightarrow> None
             | Some (k, r1) \<Rightarrow>
                 (case skipWs r1 of
                    [] \<Rightarrow> None
                  | d # r2 \<Rightarrow>
                      if d \<noteq> CHR '':'' then None
                      else
                        (case parseValue n (skipWs r2) of
                           None \<Rightarrow> None
                         | Some (v, r3) \<Rightarrow>
                             (case skipWs r3 of
                                [] \<Rightarrow> None
                              | d' # r4 \<Rightarrow>
                                  if d' = CHR '','' then
                                    map_option (\<lambda>(ms, rest). ((k, v) # ms, rest))
                                      (parseMembers n (skipWs r4))
                                  else if d' = CHR ''}'' then Some ([(k, v)], r4)
                                  else None)))))"

definition JSON_parse :: "string \<Rightarrow> json option" where
  "JSON_parse t =
     (let s = trimJsonWs t in
      case parseValue (Suc (length s)) s of
        None \<Rightarrow> None
      | Some (v, rest) \<Rightarrow> if rest = [] then Some v else None)"

section \<open>Response cleaning (\<open>cleanJsonResponse\<close>, server.js 710--770)\<close>

text \<open>
  \<open>String.prototype.replace\<close> with a global regular expression: scan from the left, and
  where the expression matches replace the match and go on after it. The matcher says
  how many characters the expression matches at the head of the rest.
\<close>

fun replaceAll :: "(string \<Rightarrow> nat option) \<Rightarrow> string \<Rightarrow> string \<Rightarrow> string" where
  "replaceAll m rep [] = (case m [] of None \<Rightarrow> [] | Some k \<Rightarrow> rep)"
| "replaceAll m rep (c # cs) =
     (case m (c # cs) of
        None \<Rightarrow> c # replaceAll m rep cs
      | Some 0 \<Rightarrow> rep @ c # replaceAll m rep cs
      | Some (Suc k) \<Rightarrow> rep @ replaceAll m rep (drop k cs))"

text \<open>\<open>/```json\s*/gi\<close>, \<open>/```\s*/g\<close>, a literal, and \<open>/<[^>]+>/g\<close>.\<close>

fun matchFenceJson :: "string \<Rightarrow> nat option" where
  "matchFenceJson (a # b # c # j # s # ob # n # rest) =
     (if a = CHR 0x60 \<and> b = CHR 0x60 \<and> c = CHR 0x60
         \<and> (j = CHR ''j'' \<or> j = CHR ''J'') \<and> (s = CHR ''s'' \<or> s = CHR ''S'')
         \<and> (ob = CHR ''o'' \<or> ob = CHR ''O'') \<and> (n = CHR ''n'' \<or> n = CHR ''N'')
      then Some (7 + length (takeWhile isWhiteSpace rest)) else None)"
| "matchFenceJson s = None"

fun matchFence :: "string \<Rightarrow> nat option" where
  "matchFence (a # b # c # rest) =
     (if a = CHR 0x60 \<and> b = CHR 0x60 \<and> c = CHR 0x60
      then Some (3 + length (takeWhile isWhiteSpace rest)) else None)"
| "matchFence s = None"

definition matchLiteral :: "string \<Rightarrow> string \<Rightarrow> nat option" where
  "matchLiteral pat s = (if prefix pat s then Some (length pat) else None)"

fun matchTag :: "string \<Rightarrow> nat option" where
  "matchTag [] = None"
| "matchTag (c # rest) =
     (let body = takeWhile (\<lambda>x. x \<noteq> CHR ''>'') rest in
      if c = CHR ''<'' \<and> body \<noteq> [] \<and> length body < length rest
      then Some (length body + 2) else None)"

definition indexOf :: "char \<Rightarrow> string \<Rightarrow> nat option" where
  "indexOf c s = (if c \<in> set s then Some (length (takeWhile (\<lambda>x. x \<noteq> c) s)) else None)"

definition lastIndexOf :: "char \<Rightarrow> string \<Rightarrow> int" where
  "lastIndexOf c s =
     (if c \<in> set s then int (length s) - 1 - int (length (takeWhile (\<lambda>x. x \<noteq> c) (rev s)))
      else - 1)"

text \<open>\<open>Math.min\<close> over two indices where an absent one counts as \<open>Infinity\<close>.\<close>

fun minIndex :: "nat option \<Rightarrow> nat option \<Rightarrow> nat option" where
  "minIndex None b = b"
| "minIndex (Some a) None = Some a"
| "minIndex (Some a) (Some b) = Some (min a b)"

datatype clean_error = SyntaxError

definition stripFences :: "string \<Rightarrow> string" where
  "stripFences t = replaceAll matchFence [] (replaceAll matchFenceJson [] t)"

definition cutToBrackets :: "string \<Rightarrow> string" where
  "cutToBrackets t =
     (let t1 = (case minIndex (indexOf (CHR ''['') t) (indexOf (CHR ''{'') t) of
                  None \<Rightarrow> t
                | Some jsonStart \<Rightarrow> drop jsonStart t);
          jsonEnd = max (lastIndexOf (CHR '']'') t1) (lastIndexOf (CHR ''}'') t1)
      in if jsonEnd \<noteq> - 1 then take (nat (jsonEnd + 1)) t1 else t1)"

definition fixEntities :: "string \<Rightarrow> string" where
  "fixEntities t =
     replaceAll (matchLiteral ''&apos;'') [CHR 0x27]
       (replaceAll (matchLiteral ''&gt;'') ''>''
         (replaceAll (matchLiteral ''&lt;'') ''<''
           (replaceAll (matchLiteral ''&amp;'') ''&''
             (replaceAll (matchLiteral ''&quot;'') [CHR 0x5C, CHR 0x22] t))))"

definition removeTags :: "string \<Rightarrow> string" where
  "removeTags t = replaceAll matchTag [] t"

definition cleanJsonResponse :: "string \<Rightarrow> clean_error + string" where
  "cleanJsonResponse t =
     (let cleaned = trim (removeTags (fixEntities (cutToBrackets (stripFences t))))
      in case JSON_parse cleaned of
           None \<Rightarrow> Inl SyntaxError
         | Some v \<Rightarrow> Inr cleaned)"

text \<open>
  The markers the cleaning looks for, and the records a cleaned text holds.
\<close>

definition fence :: string where
  "fence = [CHR 0x60, CHR 0x60, CHR 0x60]"

definition entities :: "string list" where
  "entities = [''&quot;'', ''&amp;'', ''&lt;'', ''&gt;'', ''&apos;'']"

definition recordsOf :: "clean_error + string \<Rightarrow> json list option" where
  "recordsOf res =
     (case res of
        Inl err \<Rightarrow> None
      | Inr cleaned \<Rightarrow> (case JSON_parse cleaned of Some (JArray vs) \<Rightarrow> Some vs | _ \<Rightarrow> None))"

section \<open>Properties of the completion detector\<close>

lemma quietEvent_cong:
  "lastMutationTime st' = lastMutationTime st \<Longrightarrow> quietEvent st' e = quietEvent st e"
  by (cases e) (simp_all add: checkCompletionSignals_def)

lemma onEvent_Polling_cases:
  assumes "onEvent M e st = Polling st1"
  shows "(quietEvent st e \<and> lastMutationTime st1 = lastMutationTime st \<and>
          stableCount st1 = stableCount st + (if isPoll e then 1 else 0) \<and>
          (isPoll e \<longrightarrow> stableCount st1 < STABLE_CHECKS_NEEDED))
         \<or> stableCount st1 = 0"
proof (cases e)
  case (Mutations now ms)
  with assms show ?thesis
    by (auto simp: onMutations_def split: if_splits)
next
  case (Poll now r)
  with assms show ?thesis
    by (auto simp: onPoll_def Let_def split: if_splits)
qed

lemma onEvent_Completed_cases:
  assumes "onEvent M e st = Resolved (Completed sg)"
  shows "isPoll e \<and> quietEvent st e \<and> stableCount st + 1 \<ge> STABLE_CHECKS_NEEDED"
proof (cases e)
  case (Mutations now ms)
  with assms show ?thesis by simp
next
  case (Poll now r)
  with assms show ?thesis
    by (auto simp: onPoll_def Let_def split: if_splits)
qed

lemma monitor_append_Polling:
  "monitor M st pre = Polling st' \<Longrightarrow> monitor M st (pre @ es) = monitor M st' es"
  by (induction pre arbitrary: st) (auto split: monitoring.splits)

text \<open>
  A run that resolves as complete ends with a window of quiet events holding as many
  polls as the quorum lacked when the window began; the window begins at the start of
  the run or right after the count was reset.
\<close>

lemma monitor_window:
  assumes "monitor M st evs = Resolved (Completed sg)"
    and "stableCount st < STABLE_CHECKS_NEEDED"
  shows "\<exists>pre w post st'. evs = pre @ w @ post \<and> monitor M st pre = Polling st' \<and>
           ((pre = [] \<and> st' = st) \<or> stableCount st' = 0) \<and>
           length (filter isPoll w) + stableCount st' = STABLE_CHECKS_NEEDED \<and>
           (\<forall>e\<in>set w. quietEvent st' e) \<and>
           monitor M st (pre @ w) = Resolved (Completed sg)"
  using assms
proof (induction evs arbitrary: st)
  case Nil
  then show ?case by simp
next
  case (Cons e es)
  show ?case
  proof (cases "onEvent M e st")
    case (Resolved g)
    with Cons.prems have g: "g = Completed sg" by simp
    from onEvent_Completed_cases[OF Resolved[unfolded g]] Cons.prems(2)
    have "isPoll e" "quietEvent st e" "stableCount st + 1 = STABLE_CHECKS_NEEDED"
      by auto
    then have "e # es = [] @ [e] @ es \<and> monitor M st [] = Polling st \<and>
       (([]::dom_event list) = [] \<and> st = st) \<and>
       length (filter isPoll [e]) + stableCount st = STABLE_CHECKS_NEEDED \<and>
       (\<forall>e'\<in>set [e]. quietEvent st e') \<and> monitor M st ([] @ [e]) = Resolved (Completed sg)"
      using Resolved g by simp
    then show ?thesis by blast
  next
    case (Polling st1)
    with Cons.prems have run: "monitor M st1 es = Resolved (Completed sg)" by simp
    from onEvent_Polling_cases[OF Polling]
    have c1: "stableCount st1 < STABLE_CHECKS_NEEDED"
      using Cons.prems(2) by (cases "isPoll e") (auto simp: STABLE_CHECKS_NEEDED_def)
    from Cons.IH[OF run c1] obtain pre w post st' where
      es: "es = pre @ w @ post" and pre: "monitor M st1 pre = Polling st'"
      and start: "(pre = [] \<and> st' = st1) \<or> stableCount st' = 0"
      and len: "length (filter isPoll w) + stableCount st' = STABLE_CHECKS_NEEDED"
      and quiet: "\<forall>e\<in>set w. quietEvent st' e"
      and fin: "monitor M st1 (pre @ w) = Resolved (Completed sg)"
      by blast
    show ?thesis
    proof (cases "stableCount st' = 0")
      case True
      have "e # es = (e # pre) @ w @ post" using es by simp
      moreover have "monitor M st (e # pre) = Polling st'" using Polling pre by simp
      moreover have "monitor M st ((e # pre) @ w) = Resolved (Completed sg)"
        using Polling fin by simp
      ultimately show ?thesis using True len quiet by blast
    next
      case False
      with start have p: "pre = []" "st' = st1" by auto
      from False p onEvent_Polling_cases[OF Polling]
      have q: "quietEvent st e" and l: "lastMutationTime st1 = lastMutationTime st"
        and c: "stableCount st1 = stableCount st + (if isPoll e then 1 else 0)"
        by auto
      have "e # es = [] @ (e # w) @ post" using es p by simp
      moreover have "monitor M st [] = Polling st" by simp
      moreover have "length (filter isPoll (e # w)) + stableCount st = STABLE_CHECKS_NEEDED"
        using len c p by (cases "isPoll e") auto
      moreover have "\<forall>e'\<in>set (e # w). quietEvent st e'"
        using quiet q p quietEvent_cong[OF l] by simp
      moreover have "monitor M st ([] @ (e # w)) = Resolved (Completed sg)"
        using Polling fin p by simp
      ultimately show ?thesis by blast
    qed
  qed
qed

text \<open>Polls alone, too few to reach the quorum, time out or leave the detector polling.\<close>

lemma monitor_polls_short:
  assumes "\<forall>e\<in>set w. isPoll e" and "stableCount st + length w < STABLE_CHECKS_NEEDED"
  shows "monitor M st w = Resolved TimedOut \<or>
         (\<exists>st'. monitor M st w = Polling st' \<and> lastMutationTime st' = lastMutationTime st)"
  using assms
proof (induction w arbitrary: st)
  case Nil
  then show ?case by simp
next
  case (Cons e w)
  from Cons.prems obtain now r where e: "e = Poll now r" by (cases e) auto
  have "stableCount st + 1 < STABLE_CHECKS_NEEDED" using Cons.prems(2) by simp
  then have "onPoll M now r st = Resolved TimedOut
    \<or> onPoll M now r st = Polling (st\<lparr>stableCount := stableCount st + 1\<rparr>)
    \<or> onPoll M now r st = Polling (st\<lparr>stableCount := 0\<rparr>)"
    by (simp add: onPoll_def Let_def)
  then consider (timeout) "onPoll M now r st = Resolved TimedOut"
    | (more) "onPoll M now r st = Polling (st\<lparr>stableCount := stableCount st + 1\<rparr>)"
    | (reset) "onPoll M now r st = Polling (st\<lparr>stableCount := 0\<rparr>)"
    by blast
  then show ?case
  proof cases
    case timeout
    then show ?thesis using e by simp
  next
    case more
    have "monitor M (st\<lparr>stableCount := stableCount st + 1\<rparr>) w = Resolved TimedOut \<or>
      (\<exists>st'. monitor M (st\<lparr>stableCount := stableCount st + 1\<rparr>) w = Polling st' \<and>
         lastMutationTime st' = lastMutationTime (st\<lparr>stableCount := stableCount st + 1\<rparr>))"
      using Cons.prems by (intro Cons.IH) auto
    then show ?thesis using e more by simp
  next
    case reset
    have "monitor M (st\<lparr>stableCount := 0\<rparr>) w = Resolved TimedOut \<or>
      (\<exists>st'. monitor M (st\<lparr>stableCount := 0\<rparr>) w = Polling st' \<and>
         lastMutationTime st' = lastMutationTime (st\<lparr>stableCount := 0\<rparr>))"
      using Cons.prems by (intro Cons.IH) auto
    then show ?thesis using e reset by simp
  qed
qed

lemma onPoll_not_complete:
  assumes "\<not> isComplete (checkCompletionSignals st now r)"
  shows "onPoll M now r st = Resolved TimedOut \<or> onPoll M now r st = Polling (st\<lparr>stableCount := 0\<rparr>)"
  using assms by (simp add: onPoll_def Let_def)

lemma monitor_flicker:
  assumes "\<forall>e\<in>set w. isPoll e" and "stableCount st + length w < STABLE_CHECKS_NEEDED"
    and "\<not> isComplete (checkCompletionSignals st now r)"
  shows "monitor M st (w @ [Poll now r]) = Resolved TimedOut \<or>
         (\<exists>st'. monitor M st (w @ [Poll now r]) = Polling st' \<and> stableCount st' = 0)"
proof -
  from monitor_polls_short[OF assms(1,2), of M]
  consider "monitor M st w = Resolved TimedOut"
    | st' where "monitor M st w = Polling st'" "lastMutationTime st' = lastMutationTime st"
    by blast
  then show ?thesis
  proof cases
    case 1
    have "monitor M st (w @ es) = Resolved TimedOut" if "monitor M st w = Resolved TimedOut" for es
      using that by (induction w arbitrary: st) (auto split: monitoring.splits)
    with 1 show ?thesis by blast
  next
    case 2
    have "\<not> isComplete (checkCompletionSignals st' now r)"
      using assms(3) 2(2) by (simp add: checkCompletionSignals_def)
    from onPoll_not_complete[OF this, of M] monitor_append_Polling[OF 2(1), of "[Poll now r]"]
    show ?thesis by auto
  qed
qed

text \<open>
  C3. The detector resolves as complete only at the end of five consecutive polls on
  which (copy button shown) or (stop button gone and no mutation for at least 1500 ms
  and typing indicator gone) held, with no relevant mutation between them; a poll before
  the deadline on which the condition fails puts the count back to zero; so fewer than
  five complete polls followed by a poll where the condition fails never resolve the
  detector as complete and leave the count at zero.
\<close>

theorem quorum_debounce:
  "(monitor maxWaitMs (initDetector t0) evs = Resolved (Completed sg) \<longrightarrow>
      (\<exists>pre w post st. evs = pre @ w @ post
         \<and> monitor maxWaitMs (initDetector t0) pre = Polling st
         \<and> length (filter isPoll w) = STABLE_CHECKS_NEEDED
         \<and> (\<forall>e\<in>set w. quietEvent st e)
         \<and> monitor maxWaitMs (initDetector t0) (pre @ w) = Resolved (Completed sg)))
   \<and> (now - startTime st1 < maxWaitMs \<and> \<not> isComplete (checkCompletionSignals st1 now r) \<longrightarrow>
        onPoll maxWaitMs now r st1 = Polling (st1\<lparr>stableCount := 0\<rparr>))
   \<and> ((\<forall>e\<in>set w1. isPoll e) \<and> stableCount st2 + length w1 < STABLE_CHECKS_NEEDED
        \<and> \<not> isComplete (checkCompletionSignals st2 now2 r2) \<longrightarrow>
        (\<forall>sg'. monitor maxWaitMs st2 (w1 @ [Poll now2 r2]) \<noteq> Resolved (Completed sg'))
        \<and> (\<forall>st'. monitor maxWaitMs st2 (w1 @ [Poll now2 r2]) = Polling st' \<longrightarrow> stableCount st' = 0))"
proof (intro conjI impI)
  assume run: "monitor maxWaitMs (initDetector t0) evs = Resolved (Completed sg)"
  have "stableCount (initDetector t0) < STABLE_CHECKS_NEEDED"
    by (simp add: initDetector_def STABLE_CHECKS_NEEDED_def)
  from monitor_window[OF run this] obtain pre w post st where
    w: "evs = pre @ w @ post" "monitor maxWaitMs (initDetector t0) pre = Polling st"
      "(pre = [] \<and> st = initDetector t0) \<or> stableCount st = 0"
      "length (filter isPoll w) + stableCount st = STABLE_CHECKS_NEEDED"
      "\<forall>e\<in>set w. quietEvent st e"
      "monitor maxWaitMs (initDetector t0) (pre @ w) = Resolved (Completed sg)"
    by blast
  from w(3) have "stableCount st = 0" by (auto simp: initDetector_def)
  with w show "\<exists>pre w post st. evs = pre @ w @ post
         \<and> monitor maxWaitMs (initDetector t0) pre = Polling st
         \<and> length (filter isPoll w) = STABLE_CHECKS_NEEDED
         \<and> (\<forall>e\<in>set w. quietEvent st e)
         \<and> monitor maxWaitMs (initDetector t0) (pre @ w) = Resolved (Completed sg)"
    by auto
next
  assume "now - startTime st1 < maxWaitMs \<and> \<not> isComplete (checkCompletionSignals st1 now r)"
  then show "onPoll maxWaitMs now r st1 = Polling (st1\<lparr>stableCount := 0\<rparr>)"
    by (simp add: onPoll_def Let_def)
next
  assume a: "(\<forall>e\<in>set w1. isPoll e) \<and> stableCount st2 + length w1 < STABLE_CHECKS_NEEDED
        \<and> \<not> isComplete (checkCompletionSignals st2 now2 r2)"
  then have "monitor maxWaitMs st2 (w1 @ [Poll now2 r2]) = Resolved TimedOut \<or>
         (\<exists>st'. monitor maxWaitMs st2 (w1 @ [Poll now2 r2]) = Polling st' \<and> stableCount st' = 0)"
    by (intro monitor_flicker) auto
  then show "\<forall>sg'. monitor maxWaitMs st2 (w1 @ [Poll now2 r2]) \<noteq> Resolved (Completed sg')"
    and "\<forall>st'. monitor maxWaitMs st2 (w1 @ [Poll now2 r2]) = Polling st' \<longrightarrow> stableCount st' = 0"
    by auto
qed

theorem quorum_debounce_witness:
  "monitor 180000 (initDetector 0)
     [Poll 500 \<lparr>copyShown = True, stopShown = False, typingShown = False\<rparr>,
      Poll 1000 \<lparr>copyShown = True, stopShown = False, typingShown = False\<rparr>,
      Poll 1500 \<lparr>copyShown = True, stopShown = False, typingShown = False\<rparr>,
      Poll 2000 \<lparr>copyShown = True, stopShown = False, typingShown = False\<rparr>,
      Poll 2500 \<lparr>copyShown = True, stopShown = False, typingShown = False\<rparr>]
     = Resolved (Completed \<lparr>copyButton = True, stopButton = True, textStable = True, cursorGone = True\<rparr>)
   \<and> (\<exists>pre w post st.
        [Poll 500 \<lparr>copyShown = True, stopShown = False, typingShown = False\<rparr>,
         Poll 1000 \<lparr>copyShown = True, stopShown = False, typingShown = False\<rparr>,
         Poll 1500 \<lparr>copyShown = True, stopShown = False, typingShown = False\<rparr>,
         Poll 2000 \<lparr>copyShown = True, stopShown = False, typingShown = False\<rparr>,
         Poll 2500 \<lparr>copyShown = True, stopShown = False, typingShown = False\<rparr>] = pre @ w @ post
        \<and> monitor 180000 (initDetector 0) pre = Polling st
        \<and> length (filter isPoll w) = STABLE_CHECKS_NEEDED)
   \<and> onPoll 180000 500 \<lparr>copyShown = False, stopShown = True, typingShown = True\<rparr> (initDetector 0)
       = Polling ((initDetector 0)\<lparr>stableCount := 0\<rparr>)
   \<and> monitor 180000 (initDetector 0)
        ([Poll 500 \<lparr>copyShown = True, stopShown = False, typingShown = False\<rparr>,
          Poll 1000 \<lparr>copyShown = True, stopShown = False, typingShown = False\<rparr>]
         @ [Poll 1500 \<lparr>copyShown = False, stopShown = True, typingShown = True\<rparr>])
       \<noteq> Resolved (Completed \<lparr>copyButton = True, stopButton = True, textStable = True, cursorGone = True\<rparr>)"
proof -
  let ?c = "\<lparr>copyShown = True, stopShown = False, typingShown = False\<rparr>"
  let ?busy = "\<lparr>copyShown = False, stopShown = True, typingShown = True\<rparr>"
  let ?sg = "\<lparr>copyButton = True, stopButton = True, textStable = True, cursorGone = True\<rparr>"
  let ?tr = "[Poll 500 ?c, Poll 1000 ?c, Poll 1500 ?c, Poll 2000 ?c, Poll 2500 ?c]"
  have run: "monitor 180000 (initDetector 0) ?tr = Resolved (Completed ?sg)"
    by (simp add: onPoll_def initDetector_def checkCompletionSignals_def isComplete_def
        STABLE_CHECKS_NEEDED_def STABLE_DURATION_MS_def)
  have h2: "500 - startTime (initDetector 0) < 180000
      \<and> \<not> isComplete (checkCompletionSignals (initDetector 0) 500 ?busy)"
    by (simp add: initDetector_def checkCompletionSignals_def isComplete_def)
  have h3: "(\<forall>e\<in>set [Poll 500 ?c, Poll 1000 ?c]. isPoll e)
      \<and> stableCount (initDetector 0) + length [Poll 500 ?c, Poll 1000 ?c] < STABLE_CHECKS_NEEDED
      \<and> \<not> isComplete (checkCompletionSignals (initDetector 0) 1500 ?busy)"
    by (simp add: initDetector_def checkCompletionSignals_def isComplete_def
        STABLE_CHECKS_NEEDED_def)
  from quorum_debounce[where maxWaitMs = 180000 and ?t0.0 = 0 and evs = ?tr and sg = ?sg
      and now = 500 and ?st1.0 = "initDetector 0" and r = ?busy
      and ?w1.0 = "[Poll 500 ?c, Poll 1000 ?c]" and ?st2.0 = "initDetector 0"
      and ?now2.0 = 1500 and ?r2.0 = ?busy] run h2 h3
  show ?thesis by blast
qed

lemma monitor_deadline:
  assumes "monitor M st0 pre = Polling st" and "now - startTime st \<ge> M"
  shows "monitor M st0 (pre @ Poll now r # post) = Resolved TimedOut"
  using monitor_append_Polling[OF assms(1), of "Poll now r # post"] assms(2)
  by (simp add: onPoll_def)

text \<open>
  C7. A poll at or after the deadline resolves the detector with \<open>completed: false\<close>,
  whatever the signals and the count are, and never rejects; \<open>waitForResponse\<close> then
  goes on to the same extraction it runs after a confirmed completion, and returns the
  text of the last message when that text has at least 50 characters.
\<close>

theorem deadline_degrades_to_extraction:
  "(now - startTime st \<ge> maxWaitMs \<longrightarrow> onPoll maxWaitMs now r st = Resolved TimedOut)
   \<and> (monitor maxWaitMs st0 pre = Polling st \<and> now - startTime st \<ge> maxWaitMs \<longrightarrow>
        monitor maxWaitMs st0 (pre @ Poll now r # post) = Resolved TimedOut)
   \<and> (appeared \<and> atStart \<noteq> [] \<and> monitor maxWaitMs (initDetector t0) evs = Resolved TimedOut \<longrightarrow>
        waitForResponse maxWaitMs appeared t0 atStart evs atExtract atRecovery
          = Some (case extractResponse atExtract of
                    Inl err \<Rightarrow> recoverResponse err atRecovery
                  | Inr t \<Rightarrow> Inr t)
        \<and> (atExtract \<noteq> [] \<and> length (extractText (last atExtract)) \<ge> 50 \<longrightarrow>
             waitForResponse maxWaitMs appeared t0 atStart evs atExtract atRecovery
               = Some (Inr (extractText (last atExtract)))))"
proof (intro conjI impI)
  assume "now - startTime st \<ge> maxWaitMs"
  then show "onPoll maxWaitMs now r st = Resolved TimedOut" by (simp add: onPoll_def)
next
  assume "monitor maxWaitMs st0 pre = Polling st \<and> now - startTime st \<ge> maxWaitMs"
  then show "monitor maxWaitMs st0 (pre @ Poll now r # post) = Resolved TimedOut"
    by (simp add: monitor_deadline)
next
  assume a: "appeared \<and> atStart \<noteq> [] \<and> monitor maxWaitMs (initDetector t0) evs = Resolved TimedOut"
  then show w: "waitForResponse maxWaitMs appeared t0 atStart evs atExtract atRecovery
          = Some (case extractResponse atExtract of
                    Inl err \<Rightarrow> recoverResponse err atRecovery
                  | Inr t \<Rightarrow> Inr t)"
    by (simp add: waitForResponse_def)
  assume "atExtract \<noteq> [] \<and> length (extractText (last atExtract)) \<ge> 50"
  then have "extractResponse atExtract = Inr (extractText (last atExtract))"
    by (auto simp: extractResponse_def Let_def)
  with w show "waitForResponse maxWaitMs appeared t0 atStart evs atExtract atRecovery
               = Some (Inr (extractText (last atExtract)))"
    by simp
qed

theorem deadline_degrades_to_extraction_witness:
  \<open>onPoll 180000 180000 \<lparr>copyShown = False, stopShown = True, typingShown = True\<rparr> (initDetector 0)
     = Resolved TimedOut
   \<and> monitor 180000 (initDetector 0)
       ([Poll 179500 \<lparr>copyShown = False, stopShown = True, typingShown = True\<rparr>]
        @ Poll 180000 \<lparr>copyShown = True, stopShown = False, typingShown = False\<rparr> # [])
     = Resolved TimedOut
   \<and> waitForResponse 180000 True 0
       [\<lparr>codeBlock = None, markdown = None,
         textContent = ''[{"id":1,"question":"Q?","options":["a","b","c","d"]}]''\<rparr>]
       [Poll 180000 \<lparr>copyShown = False, stopShown = True, typingShown = True\<rparr>]
       [\<lparr>codeBlock = None, markdown = None,
         textContent = ''[{"id":1,"question":"Q?","options":["a","b","c","d"]}]''\<rparr>]
       []
     = Some (Inr ''[{"id":1,"question":"Q?","options":["a","b","c","d"]}]'')\<close>
proof -
  let ?busy = "\<lparr>copyShown = False, stopShown = True, typingShown = True\<rparr>"
  let ?ready = "\<lparr>copyShown = True, stopShown = False, typingShown = False\<rparr>"
  let ?m = \<open>\<lparr>codeBlock = None, markdown = None,
         textContent = ''[{"id":1,"question":"Q?","options":["a","b","c","d"]}]''\<rparr>\<close>
  have h1: "180000 - startTime (initDetector 0) \<ge> 180000"
    by (simp add: initDetector_def)
  have h2: "monitor 180000 (initDetector 0) [Poll 179500 ?busy] = Polling (initDetector 0)
      \<and> 180000 - startTime (initDetector 0) \<ge> 180000"
    by (simp add: initDetector_def onPoll_def checkCompletionSignals_def isComplete_def)
  have h3: "True \<and> [?m] \<noteq> [] \<and> monitor 180000 (initDetector 0) [Poll 180000 ?busy] = Resolved TimedOut"
    by (simp add: initDetector_def onPoll_def)
  have t: \<open>extractText ?m = ''[{"id":1,"question":"Q?","options":["a","b","c","d"]}]''\<close>
    by (simp add: extractText_def trim_def isWhiteSpace_def)
  have h4: "[?m] \<noteq> [] \<and> length (extractText (last [?m])) \<ge> 50"
    by (simp add: t)
  from deadline_degrades_to_extraction[where maxWaitMs = 180000 and now = 180000
      and st = "initDetector 0" and r = ?busy, THEN conjunct1] h1
  have c1: "onPoll 180000 180000 ?busy (initDetector 0) = Resolved TimedOut" by blast
  from deadline_degrades_to_extraction[where maxWaitMs = 180000 and now = 180000
      and st = "initDetector 0" and ?st0.0 = "initDetector 0" and pre = "[Poll 179500 ?busy]"
      and r = ?ready and post = "[]", THEN conjunct2, THEN conjunct1] h2
  have c2: "monitor 180000 (initDetector 0) ([Poll 179500 ?busy] @ Poll 180000 ?ready # [])
     = Resolved TimedOut" by blast
  have "waitForResponse 180000 True 0 [?m] [Poll 180000 ?busy] [?m] []
     = Some (Inr (extractText (last [?m])))"
    using deadline_degrades_to_extraction[where maxWaitMs = 180000 and appeared = True
      and atStart = "[?m]" and ?t0.0 = 0 and evs = "[Poll 180000 ?busy]" and atExtract = "[?m]"
      and atRecovery = "[]", THEN conjunct2, THEN conjunct2, THEN mp, OF h3,
      THEN conjunct2, THEN mp, OF h4] .
  then have c3: \<open>waitForResponse 180000 True 0 [?m] [Poll 180000 ?busy] [?m] []
     = Some (Inr ''[{"id":1,"question":"Q?","options":["a","b","c","d"]}]'')\<close>
    using t by simp
  from c1 c2 c3 show ?thesis by blast
qed

section \<open>Properties of the request coordinator\<close>

lemmas server_defs =
  generate_mcqs_def sendToGemini_def startRequest_def generateCacheKey_def cleanCache_def
  paste_def settle_def errorDelayElapsed_def successDelayElapsed_def pause_def resume_def
  incrementRequestCounter_def systemPromptFor_def expectedMcqs_def listening_def
  sampleExternals_def sampleDigest_def alphaBody_def betaBody_def Let_def

lemma cleanCache_fresh:
  "cache key = Some e \<Longrightarrow> now - timestamp e \<le> CACHE_EXPIRY_MS \<Longrightarrow> cleanCache now cache key = Some e"
  by (simp add: cleanCache_def)

lemma cleanCache_expired:
  "cache key = Some e \<Longrightarrow> now - timestamp e > CACHE_EXPIRY_MS \<Longrightarrow> cleanCache now cache key = None"
  by (simp add: cleanCache_def)

lemma sendToGemini_cached:
  assumes "cleanCache now (responseCache s) (generateCacheKey ext t) = Some e"
  shows "sendToGemini ext t p now s =
           s\<lparr>responseCache := cleanCache now (responseCache s),
             callers := callers s @ [Returned (response e)]\<rparr>"
  using assms by (simp add: sendToGemini_def Let_def)

lemma sendToGemini_attach:
  assumes "cleanCache now (responseCache s) (generateCacheKey ext t) = None"
    and "activeRequest s = Some q" and "activeRequestText s = Some (generateCacheKey ext t)"
  shows "sendToGemini ext t p now s =
           s\<lparr>responseCache := cleanCache now (responseCache s),
             callers := callers s @ [AwaitActive q]\<rparr>"
  using assms by (simp add: sendToGemini_def Let_def)

lemma sendToGemini_start:
  assumes "cleanCache now (responseCache s) (generateCacheKey ext t) = None"
    and "activeRequestText s \<noteq> Some (generateCacheKey ext t)"
  shows "sendToGemini ext t p now s =
           startRequest (generateCacheKey ext t) t p
             (s\<lparr>responseCache := cleanCache now (responseCache s)\<rparr>)"
  using assms by (simp add: sendToGemini_def Let_def split: option.splits)

lemma cleanCache_None: "cache key = None \<Longrightarrow> cleanCache now cache key = None"
  by (simp add: cleanCache_def)

lemma onRejected_callers:
  "fst (onRejected q err cs slot) = map (\<lambda>c. if awaits q c then Threw err else c) cs"
proof (induction cs arbitrary: slot)
  case Nil
  then show ?case by simp
next
  case (Cons c cs)
  show ?case by (cases c) (simp_all add: Cons.IH split_beta Let_def)
qed

lemma onFulfilled_received: "awaits q c \<Longrightarrow> received (onFulfilled q r now c) = Some r"
  by (cases c) simp_all

text \<open>
  Submissions of one text that arrive while the slot holds its fingerprint and nothing
  is cached for it all attach to the promise in the slot.
\<close>

lemma attach_all:
  assumes "isInitialized s" and "\<not> isPaused s" and "body_text b \<noteq> []"
    and "responseCache s (generateCacheKey ext (body_text b)) = None"
    and "activeRequest s = Some q"
    and "activeRequestText s = Some (generateCacheKey ext (body_text b))"
  shows "requests (run ext (map (Generate b today) arrivals) s) = requests s
       \<and> sessionWrites (run ext (map (Generate b today) arrivals) s) = sessionWrites s
       \<and> callers (run ext (map (Generate b today) arrivals) s)
           = callers s @ replicate (length arrivals) (AwaitActive q)"
  using assms
proof (induction arrivals arbitrary: s)
  case Nil
  then show ?case by simp
next
  case (Cons now arrivals)
  let ?s0 = "s\<lparr>premium := incrementRequestCounter today (premium s)\<rparr>"
  let ?x = "?s0\<lparr>responseCache := cleanCache now (responseCache ?s0),
                 callers := callers ?s0 @ [AwaitActive q]\<rparr>"
  have c: "cleanCache now (responseCache ?s0) (generateCacheKey ext (body_text b)) = None"
    using Cons.prems(4) by (simp add: cleanCache_None)
  have s1: "step ext (Generate b today now) s = ?x"
    using Cons.prems sendToGemini_attach[OF c, of q "systemPromptFor ext b"]
    by (simp add: generate_mcqs_def)
  have r: "run ext (map (Generate b today) (now # arrivals)) s
        = run ext (map (Generate b today) arrivals) ?x"
    by (simp only: list.map run.simps s1)
  have "requests (run ext (map (Generate b today) arrivals) ?x) = requests ?x
       \<and> sessionWrites (run ext (map (Generate b today) arrivals) ?x) = sessionWrites ?x
       \<and> callers (run ext (map (Generate b today) arrivals) ?x)
           = callers ?x @ replicate (length arrivals) (AwaitActive q)"
    using Cons.prems by (intro Cons.IH) (simp_all add: cleanCache_None)
  then show ?case unfolding r by (simp add: replicate_app_Cons_same)
qed


lemma sendToGemini_isInitialized:
  "isInitialized (sendToGemini ext t p now s) = isInitialized s"
  by (simp add: sendToGemini_def startRequest_def Let_def split: option.splits)

lemma step_isInitialized: "isInitialized (step ext e s) = isInitialized s"
proof (cases e)
  case (Generate b today now)
  then show ?thesis by (simp add: generate_mcqs_def sendToGemini_isInitialized)
next
  case (Paste rid)
  then show ?thesis by (simp add: paste_def)
next
  case (Settle rid outcome now)
  then show ?thesis by (simp add: settle_def split: sum.splits)
next
  case (ErrorDelayElapsed rid now)
  then show ?thesis
    by (simp add: errorDelayElapsed_def split_beta Let_def split: promise_state.splits)
next
  case (SuccessDelayElapsed cid now)
  then show ?thesis by (simp add: successDelayElapsed_def Let_def split: caller.splits)
next
  case (PauseRequest now)
  then show ?thesis by (simp add: pause_def)
next
  case (ResumeRequest now)
  then show ?thesis by (simp add: resume_def)
qed

lemma run_isInitialized: "isInitialized (run ext evs s) = isInitialized s"
  by (induction evs arbitrary: s) (simp_all add: step_isInitialized)

lemma listening_isInitialized: "isInitialized (run ext evs listening)"
  by (simp add: run_isInitialized listening_def)

lemma step_pause_commute:
  "exchangeEvent ev \<Longrightarrow> step ext ev (pause now s) = pause now (step ext ev s)"
proof (cases ev)
  case (Paste rid)
  then show ?thesis by (simp add: pause_def paste_def)
next
  case (Settle rid outcome t)
  then show ?thesis by (simp add: pause_def settle_def split: sum.splits)
next
  case (ErrorDelayElapsed rid t)
  then show ?thesis
    by (simp add: pause_def errorDelayElapsed_def split_beta Let_def split: promise_state.splits)
next
  case (SuccessDelayElapsed cid t)
  then show ?thesis
    by (simp add: pause_def successDelayElapsed_def Let_def split: caller.splits)
qed simp_all

text \<open>
  C2 as stated fails: the slot \<open>activeRequest\<close> holds one promise. A submission of
  another text in between takes the slot over, and a third submission, of the first
  text again, then finds neither a cache entry nor its fingerprint in the slot: it
  starts a second exchange and a second write for a fingerprint that is still in flight.
\<close>

theorem single_flight_counterexample:
  "map cacheKeyOf (requests (run sampleExternals
       [Generate alphaBody ''Tue Nov 03 2026'' 0, Generate betaBody ''Tue Nov 03 2026'' 10,
        Generate alphaBody ''Tue Nov 03 2026'' 20, Paste 0, Paste 2] listening))
     = [sampleDigest ''alpha'', sampleDigest ''beta'', sampleDigest ''alpha'']
   \<and> map state (requests (run sampleExternals
       [Generate alphaBody ''Tue Nov 03 2026'' 0, Generate betaBody ''Tue Nov 03 2026'' 10,
        Generate alphaBody ''Tue Nov 03 2026'' 20, Paste 0, Paste 2] listening))
     = [InFlight, InFlight, InFlight]
   \<and> sessionWrites (run sampleExternals
       [Generate alphaBody ''Tue Nov 03 2026'' 0, Generate betaBody ''Tue Nov 03 2026'' 10,
        Generate alphaBody ''Tue Nov 03 2026'' 20, Paste 0, Paste 2] listening)
     = [''Generate MCQs'' @ [CHR 0x0A, CHR 0x0A] @ ''alpha'',
        ''Generate MCQs'' @ [CHR 0x0A, CHR 0x0A] @ ''alpha'']
   \<and> callers (run sampleExternals
       [Generate alphaBody ''Tue Nov 03 2026'' 0, Generate betaBody ''Tue Nov 03 2026'' 10,
        Generate alphaBody ''Tue Nov 03 2026'' 20, Paste 0, Paste 2] listening)
     = [AwaitOwn 0 (sampleDigest ''alpha''), AwaitOwn 1 (sampleDigest ''beta''),
        AwaitOwn 2 (sampleDigest ''alpha'')]"
  by (simp add: server_defs)

text \<open>
  C2, amended. While the slot holds the fingerprint of a text and nothing is cached for
  it, any number of submissions of that text start no exchange and write nothing to
  the session: each awaits the promise in the slot. When that promise fulfils with a
  text of at least 50 characters, every caller awaiting it, its creator included,
  receives that text; when it rejects, every caller awaiting it receives that error.
\<close>

theorem single_flight_while_slot_held:
  "(isInitialized s \<and> \<not> isPaused s \<and> body_text b \<noteq> []
      \<and> responseCache s (generateCacheKey ext (body_text b)) = None
      \<and> activeRequest s = Some q
      \<and> activeRequestText s = Some (generateCacheKey ext (body_text b)) \<longrightarrow>
      requests (run ext (map (Generate b today) arrivals) s) = requests s
      \<and> sessionWrites (run ext (map (Generate b today) arrivals) s) = sessionWrites s
      \<and> callers (run ext (map (Generate b today) arrivals) s)
           = callers s @ replicate (length arrivals) (AwaitActive q))
   \<and> (q < length (requests s) \<and> state (requests s ! q) = InFlight \<and> length r \<ge> 50 \<longrightarrow>
      callers (settle q (Inr r) now s) = map (onFulfilled q r now) (callers s)
      \<and> (\<forall>c\<in>set (callers s). awaits q c \<longrightarrow> received (onFulfilled q r now c) = Some r)
      \<and> requests (settle q (Inr r) now s) = (requests s)[q := (requests s ! q)\<lparr>state := Fulfilled r\<rparr>]
      \<and> sessionWrites (settle q (Inr r) now s) = sessionWrites s)
   \<and> fst (onRejected q err cs slot) = map (\<lambda>c. if awaits q c then Threw err else c) cs"
proof (intro conjI impI)
  assume a: "isInitialized s \<and> \<not> isPaused s \<and> body_text b \<noteq> []
      \<and> responseCache s (generateCacheKey ext (body_text b)) = None
      \<and> activeRequest s = Some q
      \<and> activeRequestText s = Some (generateCacheKey ext (body_text b))"
  then have "requests (run ext (map (Generate b today) arrivals) s) = requests s
      \<and> sessionWrites (run ext (map (Generate b today) arrivals) s) = sessionWrites s
      \<and> callers (run ext (map (Generate b today) arrivals) s)
           = callers s @ replicate (length arrivals) (AwaitActive q)"
    by (intro attach_all) auto
  then show "requests (run ext (map (Generate b today) arrivals) s) = requests s"
    and "sessionWrites (run ext (map (Generate b today) arrivals) s) = sessionWrites s"
    and "callers (run ext (map (Generate b today) arrivals) s)
           = callers s @ replicate (length arrivals) (AwaitActive q)"
    by auto
next
  assume a: "q < length (requests s) \<and> state (requests s ! q) = InFlight \<and> length r \<ge> 50"
  then show "callers (settle q (Inr r) now s) = map (onFulfilled q r now) (callers s)"
    and "requests (settle q (Inr r) now s) = (requests s)[q := (requests s ! q)\<lparr>state := Fulfilled r\<rparr>]"
    and "sessionWrites (settle q (Inr r) now s) = sessionWrites s"
    by (auto simp: settle_def)
  show "\<forall>c\<in>set (callers s). awaits q c \<longrightarrow> received (onFulfilled q r now c) = Some r"
    by (simp add: onFulfilled_received)
next
  show "fst (onRejected q err cs slot) = map (\<lambda>c. if awaits q c then Threw err else c) cs"
    by (rule onRejected_callers)
qed

theorem single_flight_while_slot_held_witness:
  "callers (run sampleExternals
       (map (Generate alphaBody ''Tue Nov 03 2026'') [10, 20])
       (run sampleExternals [Generate alphaBody ''Tue Nov 03 2026'' 0] listening))
     = [AwaitOwn 0 (sampleDigest ''alpha''), AwaitActive 0, AwaitActive 0]
   \<and> length (requests (run sampleExternals
       (map (Generate alphaBody ''Tue Nov 03 2026'') [10, 20])
       (run sampleExternals [Generate alphaBody ''Tue Nov 03 2026'' 0] listening))) = 1
   \<and> callers (settle 0 (Inr sampleResponse) 30
        (run sampleExternals [Generate alphaBody ''Tue Nov 03 2026'' 0,
           Generate alphaBody ''Tue Nov 03 2026'' 10, Generate alphaBody ''Tue Nov 03 2026'' 20] listening))
     = [SuccessDelay sampleResponse (sampleDigest ''alpha'') 2030, Returned sampleResponse,
        Returned sampleResponse]
   \<and> fst (onRejected 0 PageError [AwaitOwn 0 (sampleDigest ''alpha''), AwaitActive 0, AwaitActive 0]
        (Some 0, Some (sampleDigest ''alpha'')))
     = [Threw PageError, Threw PageError, Threw PageError]"
proof -
  let ?d = "''Tue Nov 03 2026''"
  let ?one = "run sampleExternals [Generate alphaBody ?d 0] listening"
  let ?three = "run sampleExternals [Generate alphaBody ?d 0, Generate alphaBody ?d 10,
           Generate alphaBody ?d 20] listening"
  have one: "?one = startRequest (sampleDigest ''alpha'') ''alpha'' ''Generate MCQs''
      (listening\<lparr>premium := \<lparr>date = ?d, count = 1\<rparr>\<rparr>)"
    by (simp add: server_defs)
  have h1: "isInitialized ?one \<and> \<not> isPaused ?one \<and> body_text alphaBody \<noteq> []
      \<and> responseCache ?one (generateCacheKey sampleExternals (body_text alphaBody)) = None
      \<and> activeRequest ?one = Some 0
      \<and> activeRequestText ?one = Some (generateCacheKey sampleExternals (body_text alphaBody))"
    unfolding one by (simp add: server_defs)
  have three: "callers ?three = [AwaitOwn 0 (sampleDigest ''alpha''), AwaitActive 0, AwaitActive 0]
      \<and> map state (requests ?three) = [InFlight]"
    by (simp add: server_defs)
  have h2: "0 < length (requests ?three) \<and> state (requests ?three ! 0) = InFlight
      \<and> length sampleResponse \<ge> 50"
    by (simp add: server_defs sampleResponse_def)
  note T = single_flight_while_slot_held[where ext = sampleExternals and b = alphaBody
      and today = ?d and q = 0 and r = sampleResponse]
  have c1: "requests (run sampleExternals (map (Generate alphaBody ?d) [10, 20]) ?one) = requests ?one
      \<and> sessionWrites (run sampleExternals (map (Generate alphaBody ?d) [10, 20]) ?one) = sessionWrites ?one
      \<and> callers (run sampleExternals (map (Generate alphaBody ?d) [10, 20]) ?one)
           = callers ?one @ replicate (length [10, 20 :: int]) (AwaitActive 0)"
    using T[where s = ?one and arrivals = "[10, 20]", THEN conjunct1, THEN mp, OF h1] .
  have c2: "callers (settle 0 (Inr sampleResponse) 30 ?three)
      = map (onFulfilled 0 sampleResponse 30) (callers ?three)"
    using T[where s = ?three and now = 30, THEN conjunct2, THEN conjunct1, THEN mp, OF h2] by blast
  have c3: "fst (onRejected 0 PageError [AwaitOwn 0 (sampleDigest ''alpha''), AwaitActive 0, AwaitActive 0]
        (Some 0, Some (sampleDigest ''alpha'')))
     = map (\<lambda>c. if awaits 0 c then Threw PageError else c)
         [AwaitOwn 0 (sampleDigest ''alpha''), AwaitActive 0, AwaitActive 0]"
    using T[THEN conjunct2, THEN conjunct2] .
  have o: "callers ?one = [AwaitOwn 0 (sampleDigest ''alpha'')]" "length (requests ?one) = 1"
    unfolding one by (simp_all add: startRequest_def listening_def)
  show ?thesis
    using c1 c2 c3 three o by simp
qed

text \<open>
  C4 as stated fails: a submission with another fingerprint does not wait. Two
  exchanges are then in flight at once and both paste into the session.
\<close>

theorem no_serialization_counterexample:
  "map state (requests (run sampleExternals
       [Generate alphaBody ''Tue Nov 03 2026'' 0, Generate betaBody ''Tue Nov 03 2026'' 10,
        Paste 0, Paste 1] listening))
     = [InFlight, InFlight]
   \<and> map pasted (requests (run sampleExternals
       [Generate alphaBody ''Tue Nov 03 2026'' 0, Generate betaBody ''Tue Nov 03 2026'' 10,
        Paste 0, Paste 1] listening))
     = [True, True]
   \<and> sessionWrites (run sampleExternals
       [Generate alphaBody ''Tue Nov 03 2026'' 0, Generate betaBody ''Tue Nov 03 2026'' 10,
        Paste 0, Paste 1] listening)
     = [''Generate MCQs'' @ [CHR 0x0A, CHR 0x0A] @ ''alpha'',
        ''Generate MCQs'' @ [CHR 0x0A, CHR 0x0A] @ ''beta'']
   \<and> callers (run sampleExternals
       [Generate alphaBody ''Tue Nov 03 2026'' 0, Generate betaBody ''Tue Nov 03 2026'' 10,
        Paste 0, Paste 1] listening)
     = [AwaitOwn 0 (sampleDigest ''alpha''), AwaitOwn 1 (sampleDigest ''beta'')]"
  by (simp add: server_defs)

text \<open>
  C4, amended. A submission that is not cached and whose fingerprint differs from the
  one held in the slot does not block behind the exchange in flight: it starts its own
  exchange at once, takes the slot over, and its paste then reaches the session; the
  number of exchanges in flight grows by one.
\<close>

theorem other_fingerprint_starts_at_once:
  "cleanCache now (responseCache s) (generateCacheKey ext t) = None
     \<and> activeRequestText s \<noteq> Some (generateCacheKey ext t) \<longrightarrow>
   requests (sendToGemini ext t p now s)
     = requests s @ [\<lparr>cacheKeyOf = generateCacheKey ext t,
                      fullPrompt = p @ [CHR 0x0A, CHR 0x0A] @ t,
                      pasted = False, state = InFlight\<rparr>]
   \<and> activeRequest (sendToGemini ext t p now s) = Some (length (requests s))
   \<and> activeRequestText (sendToGemini ext t p now s) = Some (generateCacheKey ext t)
   \<and> callers (sendToGemini ext t p now s)
       = callers s @ [AwaitOwn (length (requests s)) (generateCacheKey ext t)]
   \<and> length (inFlight (sendToGemini ext t p now s)) = length (inFlight s) + 1
   \<and> sessionWrites (paste (length (requests s)) (sendToGemini ext t p now s))
       = sessionWrites s @ [p @ [CHR 0x0A, CHR 0x0A] @ t]"
proof
  assume a: "cleanCache now (responseCache s) (generateCacheKey ext t) = None
     \<and> activeRequestText s \<noteq> Some (generateCacheKey ext t)"
  then have e: "sendToGemini ext t p now s =
           startRequest (generateCacheKey ext t) t p
             (s\<lparr>responseCache := cleanCache now (responseCache s)\<rparr>)"
    by (simp add: sendToGemini_start)
  show "requests (sendToGemini ext t p now s)
     = requests s @ [\<lparr>cacheKeyOf = generateCacheKey ext t,
                      fullPrompt = p @ [CHR 0x0A, CHR 0x0A] @ t,
                      pasted = False, state = InFlight\<rparr>]
   \<and> activeRequest (sendToGemini ext t p now s) = Some (length (requests s))
   \<and> activeRequestText (sendToGemini ext t p now s) = Some (generateCacheKey ext t)
   \<and> callers (sendToGemini ext t p now s)
       = callers s @ [AwaitOwn (length (requests s)) (generateCacheKey ext t)]
   \<and> length (inFlight (sendToGemini ext t p now s)) = length (inFlight s) + 1
   \<and> sessionWrites (paste (length (requests s)) (sendToGemini ext t p now s))
       = sessionWrites s @ [p @ [CHR 0x0A, CHR 0x0A] @ t]"
    unfolding e by (simp add: startRequest_def inFlight_def unsettled_def paste_def nth_append)
qed

theorem other_fingerprint_starts_at_once_witness:
  "requests (sendToGemini sampleExternals ''beta'' ''Generate MCQs'' 10
       (sendToGemini sampleExternals ''alpha'' ''Generate MCQs'' 0 listening))
     = [\<lparr>cacheKeyOf = sampleDigest ''alpha'',
         fullPrompt = ''Generate MCQs'' @ [CHR 0x0A, CHR 0x0A] @ ''alpha'',
         pasted = False, state = InFlight\<rparr>,
        \<lparr>cacheKeyOf = sampleDigest ''beta'',
         fullPrompt = ''Generate MCQs'' @ [CHR 0x0A, CHR 0x0A] @ ''beta'',
         pasted = False, state = InFlight\<rparr>]
   \<and> activeRequest (sendToGemini sampleExternals ''beta'' ''Generate MCQs'' 10
       (sendToGemini sampleExternals ''alpha'' ''Generate MCQs'' 0 listening)) = Some 1
   \<and> length (inFlight (sendToGemini sampleExternals ''beta'' ''Generate MCQs'' 10
       (sendToGemini sampleExternals ''alpha'' ''Generate MCQs'' 0 listening))) = 2"
proof -
  let ?one = "sendToGemini sampleExternals ''alpha'' ''Generate MCQs'' 0 listening"
  have one: "?one = startRequest (sampleDigest ''alpha'') ''alpha'' ''Generate MCQs'' listening"
    by (simp add: server_defs)
  have h: "cleanCache 10 (responseCache ?one) (generateCacheKey sampleExternals ''beta'') = None
     \<and> activeRequestText ?one \<noteq> Some (generateCacheKey sampleExternals ''beta'')"
    unfolding one by (simp add: server_defs)
  have r: "requests ?one = [\<lparr>cacheKeyOf = sampleDigest ''alpha'',
         fullPrompt = ''Generate MCQs'' @ [CHR 0x0A, CHR 0x0A] @ ''alpha'',
         pasted = False, state = InFlight\<rparr>]"
    unfolding one by (simp add: startRequest_def listening_def)
  have k: "generateCacheKey sampleExternals ''beta'' = sampleDigest ''beta''"
    by (simp add: generateCacheKey_def sampleExternals_def)
  from other_fingerprint_starts_at_once[where ext = sampleExternals and t = "''beta''"
      and p = "''Generate MCQs''" and now = 10 and s = ?one, THEN mp, OF h]
  show ?thesis
    by (simp add: r k inFlight_def unsettled_def)
qed

text \<open>
  C5. A submission whose fingerprint has a cache entry of age at most 300000 ms returns
  that entry's raw text and touches neither the requests, the session nor the slot; an
  entry older than that is deleted and not served; and a text submitted again within
  the window after its exchange succeeded returns the same raw text, with no new
  request and no new session write.
\<close>

theorem idempotent_cache:
  "(responseCache s (generateCacheKey ext t) = Some e \<and> now - timestamp e \<le> CACHE_EXPIRY_MS \<longrightarrow>
      callers (sendToGemini ext t p now s) = callers s @ [Returned (response e)]
      \<and> requests (sendToGemini ext t p now s) = requests s
      \<and> sessionWrites (sendToGemini ext t p now s) = sessionWrites s
      \<and> activeRequest (sendToGemini ext t p now s) = activeRequest s
      \<and> activeRequestText (sendToGemini ext t p now s) = activeRequestText s)
   \<and> (responseCache s (generateCacheKey ext t) = Some e \<and> now - timestamp e > CACHE_EXPIRY_MS \<longrightarrow>
      responseCache (sendToGemini ext t p now s) (generateCacheKey ext t) = None
      \<and> (\<exists>c. callers (sendToGemini ext t p now s) = callers s @ [c] \<and> received c = None))
   \<and> (rid < length (requests s) \<and> state (requests s ! rid) = InFlight
      \<and> cacheKeyOf (requests s ! rid) = generateCacheKey ext t
      \<and> length r \<ge> 50 \<and> t2 - t1 \<le> CACHE_EXPIRY_MS \<longrightarrow>
      callers (sendToGemini ext t p t2 (settle rid (Inr r) t1 s))
        = callers (settle rid (Inr r) t1 s) @ [Returned r]
      \<and> requests (sendToGemini ext t p t2 (settle rid (Inr r) t1 s)) = requests (settle rid (Inr r) t1 s)
      \<and> sessionWrites (sendToGemini ext t p t2 (settle rid (Inr r) t1 s)) = sessionWrites s)"
proof (intro conjI impI)
  assume a: "responseCache s (generateCacheKey ext t) = Some e \<and> now - timestamp e \<le> CACHE_EXPIRY_MS"
  then have c: "cleanCache now (responseCache s) (generateCacheKey ext t) = Some e"
    by (simp add: cleanCache_fresh)
  show "callers (sendToGemini ext t p now s) = callers s @ [Returned (response e)]"
    and "requests (sendToGemini ext t p now s) = requests s"
    and "sessionWrites (sendToGemini ext t p now s) = sessionWrites s"
    and "activeRequest (sendToGemini ext t p now s) = activeRequest s"
    and "activeRequestText (sendToGemini ext t p now s) = activeRequestText s"
    by (simp_all add: sendToGemini_cached[OF c])
next
  assume a: "responseCache s (generateCacheKey ext t) = Some e \<and> now - timestamp e > CACHE_EXPIRY_MS"
  then have c: "cleanCache now (responseCache s) (generateCacheKey ext t) = None"
    by (simp add: cleanCache_expired)
  show "responseCache (sendToGemini ext t p now s) (generateCacheKey ext t) = None"
    using c by (simp add: sendToGemini_def Let_def startRequest_def split: option.splits)
  show "\<exists>c. callers (sendToGemini ext t p now s) = callers s @ [c] \<and> received c = None"
    using c by (simp add: sendToGemini_def Let_def startRequest_def split: option.splits)
next
  assume a: "rid < length (requests s) \<and> state (requests s ! rid) = InFlight
      \<and> cacheKeyOf (requests s ! rid) = generateCacheKey ext t
      \<and> length r \<ge> 50 \<and> t2 - t1 \<le> CACHE_EXPIRY_MS"
  let ?s1 = "settle rid (Inr r) t1 s"
  from a have "responseCache ?s1 (generateCacheKey ext t) = Some \<lparr>response = r, timestamp = t1\<rparr>"
    by (auto simp: settle_def)
  with a have c: "cleanCache t2 (responseCache ?s1) (generateCacheKey ext t)
      = Some \<lparr>response = r, timestamp = t1\<rparr>"
    by (simp add: cleanCache_fresh)
  have w: "sessionWrites ?s1 = sessionWrites s" by (simp add: settle_def split: sum.splits)
  show "callers (sendToGemini ext t p t2 ?s1) = callers ?s1 @ [Returned r]"
    and "requests (sendToGemini ext t p t2 ?s1) = requests ?s1"
    and "sessionWrites (sendToGemini ext t p t2 ?s1) = sessionWrites s"
    using w by (simp_all add: sendToGemini_cached[OF c])
qed


theorem idempotent_cache_witness:
  "callers (sendToGemini sampleExternals ''alpha'' ''p'' 2000
      (listening\<lparr>responseCache := [sampleDigest ''alpha'' \<mapsto> \<lparr>response = sampleResponse, timestamp = 1000\<rparr>]\<rparr>))
     = [Returned sampleResponse]
   \<and> responseCache (sendToGemini sampleExternals ''alpha'' ''p'' 400000
      (listening\<lparr>responseCache := [sampleDigest ''alpha'' \<mapsto> \<lparr>response = sampleResponse, timestamp = 1000\<rparr>]\<rparr>))
      (sampleDigest ''alpha'') = None
   \<and> callers (sendToGemini sampleExternals ''alpha'' ''p'' 5000
        (settle 0 (Inr sampleResponse) 1000 (sendToGemini sampleExternals ''alpha'' ''p'' 0 listening)))
     = [SuccessDelay sampleResponse (sampleDigest ''alpha'') 3000, Returned sampleResponse]"
proof -
  let ?e = "\<lparr>response = sampleResponse, timestamp = 1000\<rparr>"
  let ?s = "listening\<lparr>responseCache := [sampleDigest ''alpha'' \<mapsto> ?e]\<rparr>"
  let ?fresh = "sendToGemini sampleExternals ''alpha'' ''p'' 0 listening"
  have k: "generateCacheKey sampleExternals ''alpha'' = sampleDigest ''alpha''"
    by (simp add: generateCacheKey_def sampleExternals_def)
  have s0: "?fresh = startRequest (sampleDigest ''alpha'') ''alpha'' ''p'' listening"
    by (simp add: sendToGemini_def Let_def k listening_def cleanCache_def)
  have h1: "responseCache ?s (generateCacheKey sampleExternals ''alpha'') = Some ?e
      \<and> 2000 - timestamp ?e \<le> CACHE_EXPIRY_MS"
    by (simp add: k CACHE_EXPIRY_MS_def)
  have h2: "responseCache ?s (generateCacheKey sampleExternals ''alpha'') = Some ?e
      \<and> 400000 - timestamp ?e > CACHE_EXPIRY_MS"
    by (simp add: k CACHE_EXPIRY_MS_def)
  have h3: "0 < length (requests ?fresh) \<and> state (requests ?fresh ! 0) = InFlight
      \<and> cacheKeyOf (requests ?fresh ! 0) = generateCacheKey sampleExternals ''alpha''
      \<and> length sampleResponse \<ge> 50 \<and> 5000 - 1000 \<le> CACHE_EXPIRY_MS"
    unfolding s0 by (simp add: startRequest_def listening_def k sampleResponse_def CACHE_EXPIRY_MS_def)
  note T = idempotent_cache[where ext = sampleExternals and t = "''alpha''" and p = "''p''"]
  have c1: "callers (sendToGemini sampleExternals ''alpha'' ''p'' 2000 ?s) = callers ?s @ [Returned (response ?e)]"
    using T[where s = ?s and e = ?e and now = 2000, THEN conjunct1, THEN mp, OF h1] by blast
  have c2: "responseCache (sendToGemini sampleExternals ''alpha'' ''p'' 400000 ?s)
      (generateCacheKey sampleExternals ''alpha'') = None"
    using T[where s = ?s and e = ?e and now = 400000, THEN conjunct2, THEN conjunct1, THEN mp, OF h2]
    by blast
  have c3: "callers (sendToGemini sampleExternals ''alpha'' ''p'' 5000 (settle 0 (Inr sampleResponse) 1000 ?fresh))
      = callers (settle 0 (Inr sampleResponse) 1000 ?fresh) @ [Returned sampleResponse]"
    using T[where s = ?fresh and rid = 0 and r = sampleResponse and ?t1.0 = 1000 and ?t2.0 = 5000,
        THEN conjunct2, THEN conjunct2, THEN mp, OF h3] by blast
  have c4: "callers (settle 0 (Inr sampleResponse) 1000 ?fresh)
      = [SuccessDelay sampleResponse (sampleDigest ''alpha'') 3000]"
    unfolding s0 by (simp add: startRequest_def listening_def settle_def sampleResponse_def)
  from c1 c2 c3 c4 show ?thesis by (simp add: k listening_def)
qed

text \<open>
  C6. While the pause flag is set, the handler replies at once and leaves the server
  state as it is, so it starts no exchange and writes nothing to the session; for a
  request that carries a text, in any state the listening server can reach, the reply
  has the code PAUSED. The pause endpoint sets the flag, and every later step of an
  exchange already started (paste, settling, the two timers) does what it would have
  done without the pause.
\<close>

theorem pause_fast_fail:
  "(isPaused s \<longrightarrow>
      (\<exists>r. generate_mcqs ext b today now s = (Some r, s))
      \<and> (body_text b \<noteq> [] \<and> isInitialized s \<longrightarrow>
           generate_mcqs ext b today now s = (Some (Paused (pauseTimestamp s)), s)))
   \<and> (isPaused (run ext evs listening) \<and> body_text b \<noteq> [] \<longrightarrow>
        generate_mcqs ext b today now (run ext evs listening)
          = (Some (Paused (pauseTimestamp (run ext evs listening))), run ext evs listening))
   \<and> isPaused (pause now s)
   \<and> (exchangeEvent ev \<longrightarrow> step ext ev (pause now s) = pause now (step ext ev s))"
proof (intro conjI impI)
  assume "isPaused s"
  then show "\<exists>r. generate_mcqs ext b today now s = (Some r, s)"
    by (simp add: generate_mcqs_def)
  assume "body_text b \<noteq> [] \<and> isInitialized s"
  with \<open>isPaused s\<close>
  show "generate_mcqs ext b today now s = (Some (Paused (pauseTimestamp s)), s)"
    by (simp add: generate_mcqs_def)
next
  assume "isPaused (run ext evs listening) \<and> body_text b \<noteq> []"
  then show "generate_mcqs ext b today now (run ext evs listening)
          = (Some (Paused (pauseTimestamp (run ext evs listening))), run ext evs listening)"
    using listening_isInitialized[of ext evs] by (simp add: generate_mcqs_def)
next
  show "isPaused (pause now s)" by (simp add: pause_def)
next
  assume "exchangeEvent ev"
  then show "step ext ev (pause now s) = pause now (step ext ev s)"
    by (rule step_pause_commute)
qed

theorem pause_fast_fail_witness:
  "generate_mcqs sampleExternals betaBody ''Tue Nov 03 2026'' 20
       (pause 10 (run sampleExternals [Generate alphaBody ''Tue Nov 03 2026'' 0, Paste 0] listening))
     = (Some (Paused (Some 10)),
        pause 10 (run sampleExternals [Generate alphaBody ''Tue Nov 03 2026'' 0, Paste 0] listening))
   \<and> fst (generate_mcqs sampleExternals betaBody ''Tue Nov 03 2026'' 20
       (run sampleExternals
          [Generate alphaBody ''Tue Nov 03 2026'' 0, Paste 0, PauseRequest 10] listening))
     = Some (Paused (Some 10))
   \<and> callers (step sampleExternals (Settle 0 (Inr sampleResponse) 30)
        (pause 10 (run sampleExternals [Generate alphaBody ''Tue Nov 03 2026'' 0, Paste 0] listening)))
     = [SuccessDelay sampleResponse (sampleDigest ''alpha'') 2030]"
proof -
  let ?s = "run sampleExternals [Generate alphaBody ''Tue Nov 03 2026'' 0, Paste 0] listening"
  let ?evs = "[Generate alphaBody ''Tue Nov 03 2026'' 0, Paste 0, PauseRequest 10]"
  note T = pause_fast_fail[where s = "pause 10 ?s" and ext = sampleExternals and b = betaBody
      and today = "''Tue Nov 03 2026''" and now = 20]
  have p: "isPaused (pause 10 ?s)" by (simp add: pause_def)
  have i: "body_text betaBody \<noteq> [] \<and> isInitialized (pause 10 ?s)"
    by (simp add: server_defs)
  have ts: "pauseTimestamp (pause 10 ?s) = Some 10" by (simp add: server_defs)
  have c1: "generate_mcqs sampleExternals betaBody ''Tue Nov 03 2026'' 20 (pause 10 ?s)
      = (Some (Paused (pauseTimestamp (pause 10 ?s))), pause 10 ?s)"
    using T[THEN conjunct1, THEN mp, OF p, THEN conjunct2, THEN mp, OF i] .
  have r: "isPaused (run sampleExternals ?evs listening) \<and> body_text betaBody \<noteq> []"
    by (simp add: server_defs)
  have rts: "pauseTimestamp (run sampleExternals ?evs listening) = Some 10"
    by (simp add: server_defs)
  have c2: "generate_mcqs sampleExternals betaBody ''Tue Nov 03 2026'' 20
        (run sampleExternals ?evs listening)
      = (Some (Paused (pauseTimestamp (run sampleExternals ?evs listening))),
         run sampleExternals ?evs listening)"
    using T[where evs = ?evs, THEN conjunct2, THEN conjunct1, THEN mp, OF r] .
  have e: "exchangeEvent (Settle 0 (Inr sampleResponse) 30)" by simp
  have c3: "step sampleExternals (Settle 0 (Inr sampleResponse) 30) (pause 10 ?s)
      = pause 10 (step sampleExternals (Settle 0 (Inr sampleResponse) 30) ?s)"
    using pause_fast_fail[where s = ?s and now = 10 and ext = sampleExternals
        and ev = "Settle 0 (Inr sampleResponse) 30",
        THEN conjunct2, THEN conjunct2, THEN conjunct2, THEN mp, OF e] .
  have c4: "callers (pause 10 (step sampleExternals (Settle 0 (Inr sampleResponse) 30) ?s))
      = [SuccessDelay sampleResponse (sampleDigest ''alpha'') 2030]"
    by (simp add: server_defs sampleResponse_def)
  show ?thesis unfolding c1 c2 c3 using c4 ts rts by simp
qed

text \<open>
  C8 on the code: after a success the creator's call is held back by a 2000 ms timer,
  after a failure the promise is held back by a 5000 ms timer. An exchange that
  settles at time 1000 returns at 3000 when it succeeded and throws at 6000 when it
  failed.
\<close>

theorem pacing_delay_differs:
  "callers (run sampleExternals
       [Generate alphaBody ''Tue Nov 03 2026'' 0, Paste 0, Settle 0 (Inr sampleResponse) 1000] listening)
     = [SuccessDelay sampleResponse (sampleDigest ''alpha'') 3000]
   \<and> callers (run sampleExternals
       [Generate alphaBody ''Tue Nov 03 2026'' 0, Paste 0, Settle 0 (Inr sampleResponse) 1000,
        SuccessDelayElapsed 0 2999] listening)
     = [SuccessDelay sampleResponse (sampleDigest ''alpha'') 3000]
   \<and> callers (run sampleExternals
       [Generate alphaBody ''Tue Nov 03 2026'' 0, Paste 0, Settle 0 (Inr sampleResponse) 1000,
        SuccessDelayElapsed 0 3000] listening)
     = [Returned sampleResponse]
   \<and> map state (requests (run sampleExternals
       [Generate alphaBody ''Tue Nov 03 2026'' 0, Paste 0, Settle 0 (Inl PageError) 1000] listening))
     = [ErrorDelay PageError 6000]
   \<and> callers (run sampleExternals
       [Generate alphaBody ''Tue Nov 03 2026'' 0, Paste 0, Settle 0 (Inl PageError) 1000,
        ErrorDelayElapsed 0 3000] listening)
     = [AwaitOwn 0 (sampleDigest ''alpha'')]
   \<and> callers (run sampleExternals
       [Generate alphaBody ''Tue Nov 03 2026'' 0, Paste 0, Settle 0 (Inl PageError) 1000,
        ErrorDelayElapsed 0 6000] listening)
     = [Threw PageError]"
  by (simp add: server_defs sampleResponse_def)


text \<open>
  C10. The fingerprint is the MD5 digest of the text alone. When a text is submitted
  for MCQs and, while that exchange is in flight, again for short notes, the second
  call attaches to the first exchange: one request, one session write, carrying the
  MCQ prompt. Both receive its raw text, and a third submission for short notes within
  the cache window receives the same text from the cache entry under that fingerprint.
\<close>

theorem fingerprint_ignores_content_type:
  "body_text b \<noteq> [] \<and> content_type b \<noteq> ''short_notes''
     \<and> nb = b\<lparr>content_type := ''short_notes''\<rparr>
     \<and> 50 \<le> length r \<and> t3 - t2 \<le> CACHE_EXPIRY_MS
     \<and> s = run ext [Generate b d t0, Generate nb d t1, Paste 0, Settle 0 (Inr r) t2,
                     Generate nb d t3] listening \<longrightarrow>
   generateCacheKey ext (body_text nb) = md5hex ext (body_text b)
   \<and> systemPromptFor ext nb = generateShortNotesPrompt ext (expectedMcqs b)
   \<and> map fullPrompt (requests s)
       = [generateSystemPrompt ext (expectedMcqs b) @ [CHR 0x0A, CHR 0x0A] @ body_text b]
   \<and> sessionWrites s
       = [generateSystemPrompt ext (expectedMcqs b) @ [CHR 0x0A, CHR 0x0A] @ body_text b]
   \<and> callers s = [SuccessDelay r (md5hex ext (body_text b)) (t2 + 2000), Returned r, Returned r]
   \<and> responseCache s (md5hex ext (body_text b)) = Some \<lparr>response = r, timestamp = t2\<rparr>"
proof
  assume a: "body_text b \<noteq> [] \<and> content_type b \<noteq> ''short_notes''
     \<and> nb = b\<lparr>content_type := ''short_notes''\<rparr>
     \<and> 50 \<le> length r \<and> t3 - t2 \<le> CACHE_EXPIRY_MS
     \<and> s = run ext [Generate b d t0, Generate nb d t1, Paste 0, Settle 0 (Inr r) t2,
                     Generate nb d t3] listening"
  then have nonempty: "body_text b \<noteq> []" and ct: "content_type b \<noteq> ''short_notes''"
    and nb: "nb = b\<lparr>content_type := ''short_notes''\<rparr>" and len: "50 \<le> length r"
    and fresh: "t3 - t2 \<le> CACHE_EXPIRY_MS"
    and run: "s = run ext [Generate b d t0, Generate nb d t1, Paste 0, Settle 0 (Inr r) t2,
                     Generate nb d t3] listening"
    by simp_all
  let ?k = "md5hex ext (body_text b)"
  let ?p = "generateSystemPrompt ext (expectedMcqs b) @ [CHR 0x0A, CHR 0x0A] @ body_text b"
  define s1 where "s1 = step ext (Generate b d t0) listening"
  define s2 where "s2 = step ext (Generate nb d t1) s1"
  define s3 where "s3 = step ext (Paste 0) s2"
  define s4 where "s4 = step ext (Settle 0 (Inr r) t2) s3"
  have s: "s = step ext (Generate nb d t3) s4"
    unfolding run s1_def s2_def s3_def s4_def by (simp only: run.simps)
  have 1: "s1 = startRequest ?k (body_text b) (generateSystemPrompt ext (expectedMcqs b))
      (listening\<lparr>premium := incrementRequestCounter d (premium listening)\<rparr>)"
    using nonempty ct unfolding s1_def
    by (simp add: generate_mcqs_def sendToGemini_def generateCacheKey_def cleanCache_def
        systemPromptFor_def listening_def Let_def)
  have f1: "isInitialized s1 \<and> \<not> isPaused s1 \<and> responseCache s1 = Map.empty
      \<and> activeRequest s1 = Some 0 \<and> activeRequestText s1 = Some ?k \<and> sessionWrites s1 = []
      \<and> callers s1 = [AwaitOwn 0 ?k]
      \<and> requests s1 = [\<lparr>cacheKeyOf = ?k, fullPrompt = ?p, pasted = False, state = InFlight\<rparr>]"
    unfolding 1 by (simp add: startRequest_def listening_def)
  have 2: "s2 = s1\<lparr>premium := incrementRequestCounter d (premium s1),
                   responseCache := cleanCache t1 (responseCache s1),
                   callers := callers s1 @ [AwaitActive 0]\<rparr>"
    using nonempty f1 unfolding s2_def nb
    by (simp add: generate_mcqs_def sendToGemini_def generateCacheKey_def cleanCache_def Let_def)
  have f2: "isInitialized s2 \<and> \<not> isPaused s2 \<and> responseCache s2 ?k = None
      \<and> sessionWrites s2 = [] \<and> callers s2 = [AwaitOwn 0 ?k, AwaitActive 0]
      \<and> requests s2 = [\<lparr>cacheKeyOf = ?k, fullPrompt = ?p, pasted = False, state = InFlight\<rparr>]"
    unfolding 2 using f1 by (simp add: cleanCache_def)
  have 3: "s3 = s2\<lparr>requests := [\<lparr>cacheKeyOf = ?k, fullPrompt = ?p, pasted = True, state = InFlight\<rparr>],
                   sessionWrites := [?p]\<rparr>"
    unfolding s3_def using f2 by (simp add: paste_def)
  have f3: "isInitialized s3 \<and> \<not> isPaused s3 \<and> responseCache s3 ?k = None
      \<and> sessionWrites s3 = [?p] \<and> callers s3 = [AwaitOwn 0 ?k, AwaitActive 0]
      \<and> requests s3 = [\<lparr>cacheKeyOf = ?k, fullPrompt = ?p, pasted = True, state = InFlight\<rparr>]"
    unfolding 3 using f2 by simp
  have f4: "isInitialized s4 \<and> \<not> isPaused s4
      \<and> responseCache s4 ?k = Some \<lparr>response = r, timestamp = t2\<rparr>
      \<and> sessionWrites s4 = [?p] \<and> callers s4 = [SuccessDelay r ?k (t2 + 2000), Returned r]
      \<and> requests s4 = [\<lparr>cacheKeyOf = ?k, fullPrompt = ?p, pasted = True, state = Fulfilled r\<rparr>]"
    unfolding s4_def using f3 len by (auto simp: settle_def)
  have c: "cleanCache t3 (responseCache s4) (generateCacheKey ext (body_text nb))
      = Some \<lparr>response = r, timestamp = t2\<rparr>"
    using f4 fresh unfolding nb by (simp add: cleanCache_def generateCacheKey_def)
  have 5: "s = s4\<lparr>premium := incrementRequestCounter d (premium s4),
                 responseCache := cleanCache t3 (responseCache s4),
                 callers := callers s4 @ [Returned r]\<rparr>"
    unfolding s using f4 nonempty c
    by (simp add: generate_mcqs_def sendToGemini_def nb Let_def)
  have k: "responseCache s ?k = Some \<lparr>response = r, timestamp = t2\<rparr>"
    unfolding 5 using c by (simp add: nb generateCacheKey_def)
  show "generateCacheKey ext (body_text nb) = md5hex ext (body_text b)
   \<and> systemPromptFor ext nb = generateShortNotesPrompt ext (expectedMcqs b)
   \<and> map fullPrompt (requests s) = [?p]
   \<and> sessionWrites s = [?p]
   \<and> callers s = [SuccessDelay r ?k (t2 + 2000), Returned r, Returned r]
   \<and> responseCache s ?k = Some \<lparr>response = r, timestamp = t2\<rparr>"
    using f4 k unfolding 5
    by (simp add: nb generateCacheKey_def systemPromptFor_def expectedMcqs_def)
qed


theorem fingerprint_ignores_content_type_witness:
  "callers (run sampleExternals
      [Generate (alphaBody\<lparr>content_type := ''mcq''\<rparr>) ''Tue Nov 03 2026'' 0,
       Generate (alphaBody\<lparr>content_type := ''short_notes''\<rparr>) ''Tue Nov 03 2026'' 10,
       Paste 0, Settle 0 (Inr sampleResponse) 1000,
       Generate (alphaBody\<lparr>content_type := ''short_notes''\<rparr>) ''Tue Nov 03 2026'' 200000] listening)
     = [SuccessDelay sampleResponse (sampleDigest ''alpha'') 3000, Returned sampleResponse,
        Returned sampleResponse]
   \<and> sessionWrites (run sampleExternals
      [Generate (alphaBody\<lparr>content_type := ''mcq''\<rparr>) ''Tue Nov 03 2026'' 0,
       Generate (alphaBody\<lparr>content_type := ''short_notes''\<rparr>) ''Tue Nov 03 2026'' 10,
       Paste 0, Settle 0 (Inr sampleResponse) 1000,
       Generate (alphaBody\<lparr>content_type := ''short_notes''\<rparr>) ''Tue Nov 03 2026'' 200000] listening)
     = [''Generate MCQs'' @ [CHR 0x0A, CHR 0x0A] @ ''alpha'']
   \<and> systemPromptFor sampleExternals (alphaBody\<lparr>content_type := ''short_notes''\<rparr>)
     = ''Generate short notes''"
proof -
  let ?b = "alphaBody\<lparr>content_type := ''mcq''\<rparr>"
  let ?n = "alphaBody\<lparr>content_type := ''short_notes''\<rparr>"
  let ?d = "''Tue Nov 03 2026''"
  let ?s = "run sampleExternals [Generate ?b ?d 0, Generate ?n ?d 10, Paste 0,
       Settle 0 (Inr sampleResponse) 1000, Generate ?n ?d 200000] listening"
  have h: "body_text ?b \<noteq> [] \<and> content_type ?b \<noteq> ''short_notes''
     \<and> ?n = ?b\<lparr>content_type := ''short_notes''\<rparr>
     \<and> 50 \<le> length sampleResponse \<and> 200000 - 1000 \<le> CACHE_EXPIRY_MS
     \<and> ?s = run sampleExternals [Generate ?b ?d 0, Generate ?n ?d 10, Paste 0,
            Settle 0 (Inr sampleResponse) 1000, Generate ?n ?d 200000] listening"
    by (simp add: alphaBody_def sampleResponse_def CACHE_EXPIRY_MS_def)
  have v: "md5hex sampleExternals (body_text ?b) = sampleDigest ''alpha''"
      "generateSystemPrompt sampleExternals (expectedMcqs ?b) = ''Generate MCQs''"
      "generateShortNotesPrompt sampleExternals (expectedMcqs ?b) = ''Generate short notes''"
      "body_text ?b = ''alpha''"
    by (simp_all add: sampleExternals_def alphaBody_def)
  note c = fingerprint_ignores_content_type[where b = ?b and nb = ?n and r = sampleResponse
      and ?t2.0 = 1000 and ?t3.0 = 200000 and s = ?s and ext = sampleExternals and d = ?d
      and ?t0.0 = 0 and ?t1.0 = 10, THEN mp, OF h]
  have c1: "callers ?s = [SuccessDelay sampleResponse (md5hex sampleExternals (body_text ?b)) (1000 + 2000),
      Returned sampleResponse, Returned sampleResponse]"
    using c by blast
  have c2: "sessionWrites ?s = [generateSystemPrompt sampleExternals (expectedMcqs ?b)
      @ [CHR 0x0A, CHR 0x0A] @ body_text ?b]"
    using c by blast
  have c3: "systemPromptFor sampleExternals ?n
      = generateShortNotesPrompt sampleExternals (expectedMcqs ?b)"
    using c by blast
  show ?thesis unfolding c1 c2 c3 by (simp add: sampleExternals_def alphaBody_def)
qed

section \<open>Properties of the parser and of the response cleaning\<close>

text \<open>The parser equations are unfolded by hand, one step at a time.\<close>

declare parseString.simps [simp del]

lemma map_option_pair_Some:
  "map_option (\<lambda>(u, rest). (f u, rest)) x = Some (v, r) \<Longrightarrow> \<exists>u'. x = Some (u', r)"
  by (cases x) auto

lemma unicode_case_Some:
  "(case r0 of [] \<Rightarrow> None | [a] \<Rightarrow> None | [a, b] \<Rightarrow> None | [a, b, x] \<Rightarrow> None
      | a # b # x # d # r' \<Rightarrow>
          (case (hx a, hx b, hx x, hx d) of
             (Some h3, Some h2, Some h1, Some h0) \<Rightarrow>
               map_option (\<lambda>(u, rest). (k h3 h2 h1 h0 # u, rest)) (p r')
           | _ \<Rightarrow> None)) = Some (v, r)
   \<Longrightarrow> \<exists>a b x d r' u'. r0 = a # b # x # d # r' \<and> p r' = Some (u', r)"
  by (auto split: list.splits option.splits)

lemma parseString_step:
  assumes "parseString (c # cs) = Some (u, r)"
  shows "r = cs \<or> (\<exists>u'. parseString cs = Some (u', r))
       \<or> (\<exists>e r0 u'. cs = e # r0 \<and> parseString r0 = Some (u', r))
       \<or> (\<exists>a b x d r0 u'. cs = CHR ''u'' # a # b # x # d # r0 \<and> parseString r0 = Some (u', r))"
proof (cases "c = CHR 0x22")
  case True
  with assms show ?thesis by (simp add: parseString.simps(2))
next
  case nq: False
  note unf = assms[unfolded parseString.simps(2)]
  show ?thesis
  proof (cases "c = CHR 0x5C")
    case False
    with nq unf have "map_option (\<lambda>(u, rest). (of_char c # u, rest)) (parseString cs) = Some (u, r)"
      by (simp split: if_splits)
    from map_option_pair_Some[OF this] show ?thesis by blast
  next
    case True
    with nq unf obtain e r0 where cs: "cs = e # r0" by (cases cs) auto
    show ?thesis
    proof (cases "e = CHR ''u''")
      case False
      with nq True cs unf obtain n where
        "map_option (\<lambda>(u, rest). (n # u, rest)) (parseString r0) = Some (u, r)"
        by (cases "unescape e") auto
      from map_option_pair_Some[OF this] cs show ?thesis by blast
    next
      case u: True
      from nq True cs u unf have
        "(case r0 of [] \<Rightarrow> None | [a] \<Rightarrow> None | [a, b] \<Rightarrow> None | [a, b, x] \<Rightarrow> None
          | a # b # x # d # r' \<Rightarrow>
             (case (hexValue a, hexValue b, hexValue x, hexValue d) of
                (Some h3, Some h2, Some h1, Some h0) \<Rightarrow>
                  map_option (\<lambda>(u, rest). ((((h3 * 16 + h2) * 16 + h1) * 16 + h0) # u, rest))
                    (parseString r')
              | _ \<Rightarrow> None)) = Some (u, r)"
        by simp
      then have "\<exists>a b x d r' u'. r0 = a # b # x # d # r' \<and> parseString r' = Some (u', r)"
        by (rule unicode_case_Some[where hx = hexValue and p = parseString
              and k = "\<lambda>h3 h2 h1 h0. ((h3 * 16 + h2) * 16 + h1) * 16 + h0"])
      then obtain a b x d r' u' where "r0 = a # b # x # d # r'" "parseString r' = Some (u', r)"
        by blast
      with cs u have "cs = CHR ''u'' # a # b # x # d # r'" "parseString r' = Some (u', r)"
        by simp_all
      then show ?thesis by (intro disjI2 exI conjI)
    qed
  qed
qed

lemma parseString_suffix: "parseString s = Some (u, r) \<Longrightarrow> suffix r s"
proof (induction s arbitrary: u r rule: length_induct)
  case (1 s)
  have IH: "suffix r' ys" if "length ys < length s" "parseString ys = Some (u', r')" for ys u' r'
    using 1 that by blast
  show ?case
  proof (cases s)
    case Nil
    with 1 show ?thesis by (simp add: parseString.simps(1))
  next
    case (Cons c cs)
    from parseString_step[OF "1.prems"[unfolded Cons]]
    consider (quote) "r = cs"
      | (plain) u' where "parseString cs = Some (u', r)"
      | (esc) e r0 u' where "cs = e # r0" "parseString r0 = Some (u', r)"
      | (uni) a b x d r0 u' where "cs = CHR ''u'' # a # b # x # d # r0" "parseString r0 = Some (u', r)"
      by (elim disjE exE conjE)
    then show ?thesis
    proof cases
      case quote
      then show ?thesis unfolding Cons by (simp add: suffix_ConsI)
    next
      case esc
      from IH[OF _ esc(2)] show ?thesis unfolding Cons esc(1) by (simp add: suffix_ConsI)
    next
      case uni
      from IH[OF _ uni(2)] show ?thesis unfolding Cons uni(1) by (simp add: suffix_ConsI)
    next
      case plain
      from IH[OF _ plain] show ?thesis unfolding Cons by (simp add: suffix_ConsI)
    qed
  qed
qed

lemma suffix_skipWs: "suffix (skipWs s) s"
  by (simp add: skipWs_def suffix_dropWhile)

lemma parseInt_suffix: "parseInt s = Some (i, r) \<Longrightarrow> suffix r s"
  by (auto simp: parseInt_def Let_def suffix_dropWhile suffix_tl split: if_splits)

lemma parseFrac_suffix: "parseFrac s = Some (f, r) \<Longrightarrow> suffix r s"
  by (auto simp: parseFrac_def suffix_dropWhile suffix_ConsI split: list.splits if_splits)

lemma parseSign_suffix: "parseSign s = (sg, r) \<Longrightarrow> suffix r s"
  by (auto simp: parseSign_def suffix_ConsI split: list.splits if_splits)

lemma parseExp_suffix:
  assumes "parseExp s = Some (e, r)"
  shows "suffix r s"
proof (cases s)
  case Nil
  with assms show ?thesis by (simp add: parseExp_def)
next
  case (Cons c cs)
  show ?thesis
  proof (cases "c = CHR ''e'' \<or> c = CHR ''E''")
    case True
    obtain sg r1 where sg: "parseSign cs = (sg, r1)" by (cases "parseSign cs")
    with assms True Cons have "r = dropWhile isDigit r1"
      by (auto simp: parseExp_def split: if_splits)
    then have "suffix r r1" by (simp add: suffix_dropWhile)
    with parseSign_suffix[OF sg] have "suffix r cs" by (meson suffix_order.trans)
    then show ?thesis unfolding Cons by (rule suffix_ConsI)
  next
    case False
    with assms Cons show ?thesis by (auto simp: parseExp_def)
  qed
qed

lemma parseNumber_suffix:
  assumes "parseNumber s = Some (n, r)"
  shows "suffix r s"
proof -
  obtain minus s1 where m: "(case s of [] \<Rightarrow> ([], s)
      | c # r \<Rightarrow> if c = CHR ''-'' then ([c], r) else ([], s)) = (minus, s1)"
    by (cases "(case s of [] \<Rightarrow> ([], s) | c # r \<Rightarrow> if c = CHR ''-'' then ([c], r) else ([], s))")
  then have s1: "suffix s1 s"
    by (auto simp: suffix_ConsI split: list.splits if_splits)
  from assms m obtain i s2 f s3 e where p: "parseInt s1 = Some (i, s2)"
    "parseFrac s2 = Some (f, s3)" "parseExp s3 = Some (e, r)"
    by (auto simp: parseNumber_def split: option.splits)
  from parseExp_suffix[OF p(3)] parseFrac_suffix[OF p(2)] have "suffix r s2"
    by (meson suffix_order.trans)
  with parseInt_suffix[OF p(1)] have "suffix r s1" by (meson suffix_order.trans)
  with s1 show ?thesis by (meson suffix_order.trans)
qed


declare parseValue.simps [simp del] parseElements.simps [simp del] parseMembers.simps [simp del]

lemma map_option_tag_Some:
  "map_option (\<lambda>(x, rest). (f x, rest)) p = Some (v, r) \<Longrightarrow> \<exists>x. p = Some (x, r) \<and> v = f x"
  by (cases p) auto

lemma parseElements_step:
  assumes "parseElements (Suc n) s = Some (vs, r)"
  shows "\<exists>v r1 d r'. parseValue n s = Some (v, r1) \<and> skipWs r1 = d # r' \<and>
           ((d = CHR '','' \<and> (\<exists>vs'. parseElements n (skipWs r') = Some (vs', r) \<and> vs = v # vs'))
            \<or> (d = CHR '']'' \<and> r = r' \<and> vs = [v]))"
proof -
  note unf = assms[unfolded parseElements.simps(2)]
  from unf obtain v r1 where pv: "parseValue n s = Some (v, r1)"
    by (cases "parseValue n s") auto
  with unf obtain d r' where sk: "skipWs r1 = d # r'"
    by (cases "skipWs r1") auto
  show ?thesis
  proof (cases "d = CHR '',''")
    case True
    with unf pv sk have "map_option (\<lambda>(vs, rest). (v # vs, rest)) (parseElements n (skipWs r')) = Some (vs, r)"
      by simp
    from map_option_tag_Some[OF this] pv sk True show ?thesis by auto
  next
    case False
    with unf pv sk show ?thesis by (auto split: if_splits)
  qed
qed

lemma parseMembers_step:
  assumes "parseMembers (Suc n) s = Some (ms, r)"
  shows "\<exists>r0 k r1 r2 v r3 d r4. s = CHR 0x22 # r0 \<and> parseString r0 = Some (k, r1)
           \<and> skipWs r1 = CHR '':'' # r2 \<and> parseValue n (skipWs r2) = Some (v, r3)
           \<and> skipWs r3 = d # r4 \<and>
           ((d = CHR '','' \<and> (\<exists>ms'. parseMembers n (skipWs r4) = Some (ms', r) \<and> ms = (k, v) # ms'))
            \<or> (d = CHR ''}'' \<and> r = r4 \<and> ms = [(k, v)]))"
proof -
  note unf = assms[unfolded parseMembers.simps(2)]
  from unf obtain q r0 where s: "s = q # r0" by (cases s) auto
  with unf have q: "q = CHR 0x22" by (auto split: if_splits)
  from unf s q obtain k r1 where ps: "parseString r0 = Some (k, r1)"
    by (cases "parseString r0") auto
  from unf s q ps obtain d0 r2 where sk1: "skipWs r1 = d0 # r2"
    by (cases "skipWs r1") auto
  from unf s q ps sk1 have d0: "d0 = CHR '':''" by (auto split: if_splits)
  from unf s q ps sk1 d0 obtain v r3 where pv: "parseValue n (skipWs r2) = Some (v, r3)"
    by (cases "parseValue n (skipWs r2)") auto
  from unf s q ps sk1 d0 pv obtain d r4 where sk2: "skipWs r3 = d # r4"
    by (cases "skipWs r3") auto
  show ?thesis
  proof (cases "d = CHR '',''")
    case True
    with unf s q ps sk1 d0 pv sk2
    have "map_option (\<lambda>(ms, rest). ((k, v) # ms, rest)) (parseMembers n (skipWs r4)) = Some (ms, r)"
      by simp
    from map_option_tag_Some[OF this] s q ps sk1 d0 pv sk2 True show ?thesis by auto
  next
    case False
    with unf s q ps sk1 d0 pv sk2 show ?thesis by (auto split: if_splits)
  qed
qed

lemma parseValue_step:
  assumes "parseValue (Suc n) (c # cs) = Some (v, r)"
  shows "(c = CHR ''['' \<and> (\<exists>d r0. skipWs cs = d # r0 \<and>
            ((d = CHR '']'' \<and> v = JArray [] \<and> r = r0)
             \<or> (d \<noteq> CHR '']'' \<and> (\<exists>vs. parseElements n (d # r0) = Some (vs, r) \<and> v = JArray vs)))))
       \<or> (c = CHR ''{'' \<and> (\<forall>vs. v \<noteq> JArray vs) \<and> (\<exists>d r0. skipWs cs = d # r0 \<and>
            ((d = CHR ''}'' \<and> r = r0)
             \<or> (d \<noteq> CHR ''}'' \<and> (\<exists>ms. parseMembers n (d # r0) = Some (ms, r))))))
       \<or> (c \<noteq> CHR ''['' \<and> c \<noteq> CHR ''{'' \<and> (\<forall>vs. v \<noteq> JArray vs) \<and> suffix r (c # cs))"
proof -
  note unf = assms[unfolded parseValue.simps(3)]
  show ?thesis
  proof (cases "c = CHR ''[''")
    case True
    with unf obtain d r0 where sk: "skipWs cs = d # r0" by (cases "skipWs cs") auto
    show ?thesis
    proof (cases "d = CHR '']''")
      case d: True
      with unf True sk show ?thesis by simp
    next
      case d: False
      with unf True sk
      have "map_option (\<lambda>(vs, rest). (JArray vs, rest)) (parseElements n (d # r0)) = Some (v, r)"
        by simp
      from map_option_tag_Some[OF this] True sk d show ?thesis by auto
    qed
  next
    case nb: False
    show ?thesis
    proof (cases "c = CHR ''{''")
      case True
      with unf obtain d r0 where sk: "skipWs cs = d # r0" by (cases "skipWs cs") auto
      show ?thesis
      proof (cases "d = CHR ''}''")
        case d: True
        with unf True sk show ?thesis by auto
      next
        case d: False
        with unf True sk
        have "map_option (\<lambda>(ms, rest). (JObject ms, rest)) (parseMembers n (d # r0)) = Some (v, r)"
          by simp
        from map_option_tag_Some[OF this] True sk d show ?thesis by auto
      qed
    next
      case no: False
      have "(\<forall>vs. v \<noteq> JArray vs) \<and> suffix r (c # cs)"
      proof (cases "c = CHR 0x22")
        case True
        with unf nb no
        have "map_option (\<lambda>(u, rest). (JString u, rest)) (parseString cs) = Some (v, r)"
          by simp
        from map_option_tag_Some[OF this] obtain u where "parseString cs = Some (u, r)" "v = JString u"
          by auto
        with parseString_suffix[of cs u r] show ?thesis by (simp add: suffix_ConsI)
      next
        case nq: False
        show ?thesis
        proof (cases "take 4 (c # cs) = ''true'' \<or> take 5 (c # cs) = ''false'' \<or> take 4 (c # cs) = ''null''")
          case True
          with unf nb no nq have na: "\<forall>vs. v \<noteq> JArray vs"
            and k: "r = drop 3 cs \<or> r = drop 4 cs"
            by (auto split: if_splits)
          have "suffix (drop 3 cs) (c # cs)" "suffix (drop 4 cs) (c # cs)"
            by (simp_all add: suffix_drop suffix_ConsI)
          with k have "suffix r (c # cs)" by auto
          with na show ?thesis by simp
        next
          case False
          with unf nb no nq
          have "map_option (\<lambda>(lexeme, rest). (JNumber lexeme, rest)) (parseNumber (c # cs)) = Some (v, r)"
            by (simp split: if_splits)
          from map_option_tag_Some[OF this] obtain l where
            "parseNumber (c # cs) = Some (l, r)" "v = JNumber l" by auto
          with parseNumber_suffix[of "c # cs" l r] show ?thesis by simp
        qed
      qed
      with nb no show ?thesis by simp
    qed
  qed
qed

lemma suffix_skipWs_trans: "suffix r (skipWs s) \<Longrightarrow> suffix r s"
  using suffix_skipWs suffix_order.trans by blast

lemma parse_suffix:
  "(parseValue n s = Some (v, r) \<longrightarrow> suffix r s \<and> (\<forall>vs. v = JArray vs \<longrightarrow> suffix (CHR '']'' # r) s))
   \<and> (parseElements n s = Some (vs, r) \<longrightarrow> suffix (CHR '']'' # r) s)
   \<and> (parseMembers n s = Some (ms, r) \<longrightarrow> suffix r s)"
proof (induction n arbitrary: s v vs ms r)
  case 0
  show ?case by (simp add: parseValue.simps parseElements.simps parseMembers.simps)
next
  case (Suc n)
  have IHv: "suffix r' s'" if "parseValue n s' = Some (v', r')" for s' v' r'
    using Suc that by blast
  have IHe: "suffix (CHR '']'' # r') s'" if "parseElements n s' = Some (vs', r')" for s' vs' r'
    using Suc that by blast
  have IHm: "suffix r' s'" if "parseMembers n s' = Some (ms', r')" for s' ms' r'
    using Suc that by blast
  have cons: "suffix r' s'" if "suffix (x # r') s'" for x and r' s' :: string
    using that by (rule suffix_ConsD)
  have V: "suffix r s \<and> (\<forall>vs. v = JArray vs \<longrightarrow> suffix (CHR '']'' # r) s)"
    if pv: "parseValue (Suc n) s = Some (v, r)"
  proof (cases s)
    case Nil
    with pv show ?thesis by (simp add: parseValue.simps)
  next
    case (Cons c cs)
    from parseValue_step[OF pv[unfolded Cons]]
    consider (arr0) r0 where "c = CHR ''[''" "skipWs cs = CHR '']'' # r0" "r = r0"
      | (arr) d r0 vs where "c = CHR ''[''" "skipWs cs = d # r0" "parseElements n (d # r0) = Some (vs, r)"
      | (obj0) r0 where "\<forall>vs. v \<noteq> JArray vs" "skipWs cs = CHR ''}'' # r0" "r = r0"
      | (obj) d r0 ms where "\<forall>vs. v \<noteq> JArray vs" "skipWs cs = d # r0" "parseMembers n (d # r0) = Some (ms, r)"
      | (scalar) "\<forall>vs. v \<noteq> JArray vs" "suffix r (c # cs)"
      by (elim disjE exE conjE) auto
    then show ?thesis
    proof cases
      case arr0
      have "suffix (CHR '']'' # r) (skipWs cs)" using arr0 by simp
      then have "suffix (CHR '']'' # r) cs" by (rule suffix_skipWs_trans)
      then have "suffix (CHR '']'' # r) s" unfolding Cons by (rule suffix_ConsI)
      with cons[of "CHR '']''" r s] show ?thesis by simp
    next
      case arr
      from IHe[OF arr(3)] have "suffix (CHR '']'' # r) (skipWs cs)" using arr(2) by simp
      then have "suffix (CHR '']'' # r) cs" by (rule suffix_skipWs_trans)
      then have "suffix (CHR '']'' # r) s" unfolding Cons by (rule suffix_ConsI)
      with cons[of "CHR '']''" r s] show ?thesis by simp
    next
      case obj0
      have "suffix r (skipWs cs)" using obj0 by (simp add: suffix_ConsI)
      then have "suffix r cs" by (rule suffix_skipWs_trans)
      then have "suffix r s" unfolding Cons by (rule suffix_ConsI)
      with obj0(1) show ?thesis by simp
    next
      case obj
      from IHm[OF obj(3)] have "suffix r (skipWs cs)" using obj(2) by simp
      then have "suffix r cs" by (rule suffix_skipWs_trans)
      then have "suffix r s" unfolding Cons by (rule suffix_ConsI)
      with obj(1) show ?thesis by simp
    next
      case scalar
      then show ?thesis unfolding Cons by simp
    qed
  qed
  have E: "suffix (CHR '']'' # r) s" if pe: "parseElements (Suc n) s = Some (vs, r)"
  proof -
    from parseElements_step[OF pe] obtain v r1 d r' where
      pv: "parseValue n s = Some (v, r1)" and sk: "skipWs r1 = d # r'"
      and alt: "(d = CHR '','' \<and> (\<exists>vs'. parseElements n (skipWs r') = Some (vs', r)))
            \<or> (d = CHR '']'' \<and> r = r')"
      by auto
    have r1: "suffix r1 s" by (rule IHv[OF pv])
    have "suffix (CHR '']'' # r) (d # r')"
    proof -
      from alt consider vs' where "parseElements n (skipWs r') = Some (vs', r)" | "d = CHR '']''" "r = r'"
        by auto
      then show ?thesis
      proof cases
        case 1
        from IHe[OF 1] have "suffix (CHR '']'' # r) r'" by (rule suffix_skipWs_trans)
        then show ?thesis by (rule suffix_ConsI)
      next
        case 2
        then show ?thesis by simp
      qed
    qed
    then have "suffix (CHR '']'' # r) r1" unfolding sk[symmetric] by (rule suffix_skipWs_trans)
    with r1 show ?thesis by (meson suffix_order.trans)
  qed
  have M: "suffix r s" if pm: "parseMembers (Suc n) s = Some (ms, r)"
  proof -
    from parseMembers_step[OF pm] obtain r0 k r1 r2 v r3 d r4 where
      s: "s = CHR 0x22 # r0" and ps: "parseString r0 = Some (k, r1)"
      and sk1: "skipWs r1 = CHR '':'' # r2" and pv: "parseValue n (skipWs r2) = Some (v, r3)"
      and sk2: "skipWs r3 = d # r4"
      and alt: "(d = CHR '','' \<and> (\<exists>ms'. parseMembers n (skipWs r4) = Some (ms', r)))
            \<or> (d = CHR ''}'' \<and> r = r4)"
      by auto
    have "suffix r r4"
    proof -
      from alt consider ms' where "parseMembers n (skipWs r4) = Some (ms', r)" | "r = r4"
        by auto
      then show ?thesis
      proof cases
        case 1
        from IHm[OF 1] show ?thesis by (rule suffix_skipWs_trans)
      next
        case 2
        then show ?thesis by simp
      qed
    qed
    then have "suffix r (skipWs r3)" unfolding sk2 by (rule suffix_ConsI)
    then have "suffix r r3" by (rule suffix_skipWs_trans)
    with IHv[OF pv] have "suffix r (skipWs r2)" by (meson suffix_order.trans)
    then have "suffix r r2" by (rule suffix_skipWs_trans)
    then have "suffix r (skipWs r1)" unfolding sk1 by (rule suffix_ConsI)
    then have "suffix r r1" by (rule suffix_skipWs_trans)
    with parseString_suffix[OF ps] have "suffix r r0" by (meson suffix_order.trans)
    then show ?thesis unfolding s by (rule suffix_ConsI)
  qed
  from V E M show ?case by (intro conjI impI) auto
qed

text \<open>
  Fuel only bounds the nesting: a parse that succeeds with some fuel succeeds with
  any larger one, and with as much fuel as characters it consumed.
\<close>

lemma map_option_mono:
  assumes "\<And>y. p = Some y \<Longrightarrow> q = Some y" and "map_option f p = Some x"
  shows "map_option f q = Some x"
  using assms by (cases p) auto

lemma fuel_Suc:
  "(parseValue n s = Some x \<longrightarrow> parseValue (Suc n) s = Some x)
   \<and> (parseElements n s = Some y \<longrightarrow> parseElements (Suc n) s = Some y)
   \<and> (parseMembers n s = Some z \<longrightarrow> parseMembers (Suc n) s = Some z)"
proof (induction n arbitrary: s x y z)
  case 0
  show ?case by (simp add: parseValue.simps parseElements.simps parseMembers.simps)
next
  case (Suc n)
  have IHv: "parseValue (Suc n) s' = Some x'" if "parseValue n s' = Some x'" for s' x'
    using Suc that by blast
  have IHe: "parseElements (Suc n) s' = Some y'" if "parseElements n s' = Some y'" for s' y'
    using Suc that by blast
  have IHm: "parseMembers (Suc n) s' = Some z'" if "parseMembers n s' = Some z'" for s' z'
    using Suc that by blast
  have V: "parseValue (Suc (Suc n)) s = Some x" if pv: "parseValue (Suc n) s = Some x"
  proof (cases s)
    case Nil
    with pv show ?thesis by (simp add: parseValue.simps)
  next
    case (Cons c cs)
    have e: "map_option f (parseElements (Suc n) u) = Some w"
      if "map_option f (parseElements n u) = Some w" for f u and w :: "json \<times> string"
      using that by (rule map_option_mono[rotated]) (rule IHe)
    have m: "map_option f (parseMembers (Suc n) u) = Some w"
      if "map_option f (parseMembers n u) = Some w" for f u and w :: "json \<times> string"
      using that by (rule map_option_mono[rotated]) (rule IHm)
    from pv[unfolded Cons parseValue.simps(3)] show ?thesis
      unfolding Cons parseValue.simps(3)[of "Suc n"]
      by (auto split: if_splits list.splits intro: IHe IHm)
  qed
  have E: "parseElements (Suc (Suc n)) s = Some y" if pe: "parseElements (Suc n) s = Some y"
  proof -
    obtain vs r where y: "y = (vs, r)" by (cases y)
    from parseElements_step[OF pe[unfolded y]] obtain v r1 d r' where
      pv: "parseValue n s = Some (v, r1)" and sk: "skipWs r1 = d # r'"
      and alt: "(d = CHR '','' \<and> (\<exists>vs'. parseElements n (skipWs r') = Some (vs', r) \<and> vs = v # vs'))
            \<or> (d = CHR '']'' \<and> r = r' \<and> vs = [v])"
      by auto
    from alt show ?thesis
    proof
      assume "d = CHR '','' \<and> (\<exists>vs'. parseElements n (skipWs r') = Some (vs', r) \<and> vs = v # vs')"
      then obtain vs' where d: "d = CHR '',''" and rec: "parseElements n (skipWs r') = Some (vs', r)"
        and vs: "vs = v # vs'" by auto
      show ?thesis unfolding y parseElements.simps(2)[of "Suc n"]
        by (simp add: IHv[OF pv] sk d IHe[OF rec] vs)
    next
      assume "d = CHR '']'' \<and> r = r' \<and> vs = [v]"
      then show ?thesis unfolding y parseElements.simps(2)[of "Suc n"]
        by (simp add: IHv[OF pv] sk)
    qed
  qed
  have M: "parseMembers (Suc (Suc n)) s = Some z" if pm: "parseMembers (Suc n) s = Some z"
  proof -
    obtain ms r where z: "z = (ms, r)" by (cases z)
    from parseMembers_step[OF pm[unfolded z]] obtain r0 k r1 r2 v r3 d r4 where
      s: "s = CHR 0x22 # r0" and ps: "parseString r0 = Some (k, r1)"
      and sk1: "skipWs r1 = CHR '':'' # r2" and pv: "parseValue n (skipWs r2) = Some (v, r3)"
      and sk2: "skipWs r3 = d # r4"
      and alt: "(d = CHR '','' \<and> (\<exists>ms'. parseMembers n (skipWs r4) = Some (ms', r) \<and> ms = (k, v) # ms'))
            \<or> (d = CHR ''}'' \<and> r = r4 \<and> ms = [(k, v)])"
      by auto
    from alt show ?thesis
    proof
      assume "d = CHR '','' \<and> (\<exists>ms'. parseMembers n (skipWs r4) = Some (ms', r) \<and> ms = (k, v) # ms')"
      then obtain ms' where d: "d = CHR '',''" and rec: "parseMembers n (skipWs r4) = Some (ms', r)"
        and ms: "ms = (k, v) # ms'" by auto
      show ?thesis unfolding z parseMembers.simps(2)[of "Suc n"]
        by (simp add: s ps sk1 IHv[OF pv] sk2 d IHm[OF rec] ms)
    next
      assume "d = CHR ''}'' \<and> r = r4 \<and> ms = [(k, v)]"
      then show ?thesis unfolding z parseMembers.simps(2)[of "Suc n"]
        by (simp add: s ps sk1 IHv[OF pv] sk2)
    qed
  qed
  from V E M show ?case by (intro conjI impI) auto
qed

lemma parseValue_fuel_mono:
  "parseValue n s = Some x \<Longrightarrow> n \<le> m \<Longrightarrow> parseValue m s = Some x"
  by (induction m) (auto simp: le_Suc_eq fuel_Suc)

lemma parseElements_fuel_mono:
  "parseElements n s = Some x \<Longrightarrow> n \<le> m \<Longrightarrow> parseElements m s = Some x"
  by (induction m) (auto simp: le_Suc_eq fuel_Suc)

lemma parseMembers_fuel_mono:
  "parseMembers n s = Some x \<Longrightarrow> n \<le> m \<Longrightarrow> parseMembers m s = Some x"
  by (induction m) (auto simp: le_Suc_eq fuel_Suc)


lemma parseNumber_consumes:
  assumes "parseNumber s = Some (l, r)"
  shows "length r < length s"
proof -
  obtain minus s1 where m: "(case s of [] \<Rightarrow> ([], s)
      | c # r \<Rightarrow> if c = CHR ''-'' then ([c], r) else ([], s)) = (minus, s1)"
    by (cases "(case s of [] \<Rightarrow> ([], s) | c # r \<Rightarrow> if c = CHR ''-'' then ([c], r) else ([], s))")
  then have s1: "length s1 \<le> length s"
    by (auto split: list.splits if_splits)
  from assms m obtain i s2 f s3 e where p: "parseInt s1 = Some (i, s2)"
    "parseFrac s2 = Some (f, s3)" "parseExp s3 = Some (e, r)"
    by (auto simp: parseNumber_def split: option.splits)
  from p(1) have "takeWhile isDigit s1 \<noteq> []" "s2 = tl s1 \<or> s2 = dropWhile isDigit s1"
    by (auto simp: parseInt_def Let_def split: if_splits)
  then have "length s2 < length s1"
    by (cases s1) (auto simp: length_dropWhile_le le_imp_less_Suc split: if_splits)
  moreover have "length s3 \<le> length s2" using parseFrac_suffix[OF p(2)] by (rule suffix_length_le)
  moreover have "length r \<le> length s3" using parseExp_suffix[OF p(3)] by (rule suffix_length_le)
  ultimately show ?thesis using s1 by simp
qed

lemma fuel_bound:
  "(parseValue n s = Some (v, r) \<longrightarrow> parseValue (length s - length r) s = Some (v, r))
   \<and> (parseElements n s = Some (vs, r) \<longrightarrow> parseElements (length s - length r) s = Some (vs, r))
   \<and> (parseMembers n s = Some (ms, r) \<longrightarrow> parseMembers (length s - length r) s = Some (ms, r))"
proof (induction n arbitrary: s v vs ms r)
  case 0
  show ?case by (simp add: parseValue.simps parseElements.simps parseMembers.simps)
next
  case (Suc n)
  have IHv: "parseValue (length s' - length r') s' = Some (v', r')"
    if "parseValue n s' = Some (v', r')" for s' v' r'
    using Suc that by blast
  have IHe: "parseElements (length s' - length r') s' = Some (vs', r')"
    if "parseElements n s' = Some (vs', r')" for s' vs' r'
    using Suc that by blast
  have IHm: "parseMembers (length s' - length r') s' = Some (ms', r')"
    if "parseMembers n s' = Some (ms', r')" for s' ms' r'
    using Suc that by blast
  have skl: "length (skipWs u) \<le> length u" for u
    by (simp add: skipWs_def length_dropWhile_le)
  have V: "parseValue (length s - length r) s = Some (v, r)"
    if pv: "parseValue (Suc n) s = Some (v, r)"
  proof (cases s)
    case Nil
    with pv show ?thesis by (simp add: parseValue.simps)
  next
    case (Cons c cs)
    note unf = pv[unfolded Cons parseValue.simps(3)]
    show ?thesis
    proof (cases "c = CHR ''['' \<or> c = CHR ''{''")
      case False
      have "length r < length s"
      proof (cases "c = CHR 0x22")
        case True
        with unf False
        have "map_option (\<lambda>(u, rest). (JString u, rest)) (parseString cs) = Some (v, r)"
          by simp
        from map_option_tag_Some[OF this] obtain u where "parseString cs = Some (u, r)" by auto
        from suffix_length_le[OF parseString_suffix[OF this]] show ?thesis unfolding Cons by simp
      next
        case nq: False
        show ?thesis
        proof (cases "take 4 (c # cs) = ''true'' \<or> take 5 (c # cs) = ''false'' \<or> take 4 (c # cs) = ''null''")
          case True
          with unf False nq have "r = drop 3 cs \<or> r = drop 4 cs" by (auto split: if_splits)
          then show ?thesis unfolding Cons by auto
        next
          case nl: False
          with unf False nq
          have "map_option (\<lambda>(lexeme, rest). (JNumber lexeme, rest)) (parseNumber (c # cs)) = Some (v, r)"
            by (simp split: if_splits)
          from map_option_tag_Some[OF this] obtain l where "parseNumber (c # cs) = Some (l, r)" by auto
          from parseNumber_consumes[OF this] show ?thesis unfolding Cons .
        qed
      qed
      then obtain k where k: "length s - length r = Suc k" by (cases "length s - length r") auto
      from unf False show ?thesis unfolding k unfolding Cons parseValue.simps(3)[of k] by simp
    next
      case True
      from unf True obtain d r0 where sk: "skipWs cs = d # r0" by (cases "skipWs cs") auto
      have r0: "length r0 < length cs" using skl[of cs] sk by simp
      show ?thesis
      proof (cases "(c = CHR ''['' \<and> d = CHR '']'') \<or> (c = CHR ''{'' \<and> d = CHR ''}'')")
        case closed: True
        with unf sk have "r = r0" by (auto split: if_splits)
        with r0 have "length r < length s" unfolding Cons by simp
        then obtain k where k: "length s - length r = Suc k" by (cases "length s - length r") auto
        from unf show ?thesis unfolding k unfolding Cons parseValue.simps(3)[of k] using sk closed
          by (auto split: if_splits)
      next
        case unclosed: False
        show ?thesis
        proof (cases "c = CHR ''[''")
          case arr: True
          with unf sk unclosed
          have "map_option (\<lambda>(vs, rest). (JArray vs, rest)) (parseElements n (d # r0)) = Some (v, r)"
            by simp
          from map_option_tag_Some[OF this] obtain ws where
            pe: "parseElements n (d # r0) = Some (ws, r)" and v: "v = JArray ws" by auto
          from parse_suffix[of n "d # r0" undefined r ws undefined] pe
          have "suffix (CHR '']'' # r) (d # r0)" by simp
          then have lr: "length r < length (d # r0)" using suffix_length_le by fastforce
          then obtain k where k: "length s - length r = Suc k" and kl: "length (d # r0) - length r \<le> k"
            using r0 unfolding Cons by (cases "length (c # cs) - length r") auto
          from parseElements_fuel_mono[OF IHe[OF pe] kl]
          show ?thesis unfolding k unfolding Cons parseValue.simps(3)[of k] using arr sk unclosed v
            by simp
        next
          case False
          with True have obj: "c = CHR ''{''" by simp
          with unf sk unclosed
          have "map_option (\<lambda>(ms, rest). (JObject ms, rest)) (parseMembers n (d # r0)) = Some (v, r)"
            by simp
          from map_option_tag_Some[OF this] obtain ws where
            pm: "parseMembers n (d # r0) = Some (ws, r)" and v: "v = JObject ws" by auto
          from parse_suffix[of n "d # r0" undefined r undefined ws] pm
          have "suffix r (d # r0)" by simp
          then have lr: "length r \<le> length (d # r0)" by (rule suffix_length_le)
          then obtain k where k: "length s - length r = Suc k" and kl: "length (d # r0) - length r \<le> k"
            using r0 unfolding Cons by (cases "length (c # cs) - length r") auto
          from parseMembers_fuel_mono[OF IHm[OF pm] kl]
          show ?thesis unfolding k unfolding Cons parseValue.simps(3)[of k] using obj sk unclosed v
            by simp
        qed
      qed
    qed
  qed
  have E: "parseElements (length s - length r) s = Some (vs, r)"
    if pe: "parseElements (Suc n) s = Some (vs, r)"
  proof -
    from parseElements_step[OF pe] obtain v r1 d r' where
      pv: "parseValue n s = Some (v, r1)" and sk: "skipWs r1 = d # r'"
      and alt: "(d = CHR '','' \<and> (\<exists>vs'. parseElements n (skipWs r') = Some (vs', r) \<and> vs = v # vs'))
            \<or> (d = CHR '']'' \<and> r = r' \<and> vs = [v])"
      by auto
    from parse_suffix[of n s v r1 undefined undefined] pv have "suffix r1 s" by simp
    then have l1: "length r1 \<le> length s" by (rule suffix_length_le)
    have l2: "length r' < length r1" using skl[of r1] sk by simp
    from alt show ?thesis
    proof
      assume "d = CHR '','' \<and> (\<exists>vs'. parseElements n (skipWs r') = Some (vs', r) \<and> vs = v # vs')"
      then obtain vs' where d: "d = CHR '',''" and rec: "parseElements n (skipWs r') = Some (vs', r)"
        and vs: "vs = v # vs'" by auto
      from parse_suffix[of n "skipWs r'" undefined r vs' undefined] rec
      have "suffix (CHR '']'' # r) (skipWs r')" by simp
      then have "length r < length (skipWs r')" using suffix_length_le by fastforce
      with skl[of r'] have l3: "length r < length r'" by simp
      from l1 l2 l3 obtain k where k: "length s - length r = Suc k"
        and k1: "length s - length r1 \<le> k" and k2: "length (skipWs r') - length r \<le> k"
        using skl[of r'] by (cases "length s - length r") auto
      show ?thesis unfolding k parseElements.simps(2)[of k]
        by (simp add: parseValue_fuel_mono[OF IHv[OF pv] k1] sk d
            parseElements_fuel_mono[OF IHe[OF rec] k2] vs)
    next
      assume a: "d = CHR '']'' \<and> r = r' \<and> vs = [v]"
      with l1 l2 obtain k where k: "length s - length r = Suc k"
        and k1: "length s - length r1 \<le> k"
        by (cases "length s - length r") auto
      show ?thesis unfolding k parseElements.simps(2)[of k]
        using a by (simp add: parseValue_fuel_mono[OF IHv[OF pv] k1] sk)
    qed
  qed
  have M: "parseMembers (length s - length r) s = Some (ms, r)"
    if pm: "parseMembers (Suc n) s = Some (ms, r)"
  proof -
    from parseMembers_step[OF pm] obtain r0 k r1 r2 v r3 d r4 where
      s: "s = CHR 0x22 # r0" and ps: "parseString r0 = Some (k, r1)"
      and sk1: "skipWs r1 = CHR '':'' # r2" and pv: "parseValue n (skipWs r2) = Some (v, r3)"
      and sk2: "skipWs r3 = d # r4"
      and alt: "(d = CHR '','' \<and> (\<exists>ms'. parseMembers n (skipWs r4) = Some (ms', r) \<and> ms = (k, v) # ms'))
            \<or> (d = CHR ''}'' \<and> r = r4 \<and> ms = [(k, v)])"
      by auto
    have l0: "length r1 \<le> length r0" using parseString_suffix[OF ps] by (rule suffix_length_le)
    have l1: "length r2 < length r1" using skl[of r1] sk1 by simp
    from parse_suffix[of n "skipWs r2" v r3 undefined undefined] pv have "suffix r3 (skipWs r2)" by simp
    then have l2: "length r3 \<le> length (skipWs r2)" by (rule suffix_length_le)
    have l3: "length r4 < length r3" using skl[of r3] sk2 by simp
    from alt show ?thesis
    proof
      assume "d = CHR '','' \<and> (\<exists>ms'. parseMembers n (skipWs r4) = Some (ms', r) \<and> ms = (k, v) # ms')"
      then obtain ms' where d: "d = CHR '',''" and rec: "parseMembers n (skipWs r4) = Some (ms', r)"
        and ms: "ms = (k, v) # ms'" by auto
      from parse_suffix[of n "skipWs r4" undefined r undefined ms'] rec
      have "suffix r (skipWs r4)" by simp
      then have l4: "length r \<le> length (skipWs r4)" by (rule suffix_length_le)
      from l0 l1 l2 l3 l4 obtain j where j: "length s - length r = Suc j"
        and j1: "length (skipWs r2) - length r3 \<le> j" and j2: "length (skipWs r4) - length r \<le> j"
        using skl[of r2] skl[of r4] unfolding s by (cases "length (CHR 0x22 # r0) - length r") auto
      show ?thesis unfolding j parseMembers.simps(2)[of j]
        by (simp add: s ps sk1 parseValue_fuel_mono[OF IHv[OF pv] j1] sk2 d
            parseMembers_fuel_mono[OF IHm[OF rec] j2] ms)
    next
      assume a: "d = CHR ''}'' \<and> r = r4 \<and> ms = [(k, v)]"
      with l0 l1 l2 l3 obtain j where j: "length s - length r = Suc j"
        and j1: "length (skipWs r2) - length r3 \<le> j"
        using skl[of r2] unfolding s by (cases "length (CHR 0x22 # r0) - length r") auto
      show ?thesis unfolding j parseMembers.simps(2)[of j]
        using a by (simp add: s ps sk1 parseValue_fuel_mono[OF IHv[OF pv] j1] sk2)
    qed
  qed
  from V E M show ?case by (intro conjI impI) auto
qed

text \<open>
  The fuel that \<open>JSON_parse\<close> starts with is enough: a text that parses with any fuel
  parses with it, so \<open>None\<close> always is a syntax error.
\<close>

lemma JSON_parse_enough_fuel:
  assumes "parseValue n (trimJsonWs t) = Some (v, [])"
  shows "JSON_parse t = Some v"
proof -
  from fuel_bound[of n "trimJsonWs t" v "[]"] assms
  have "parseValue (length (trimJsonWs t) - length ([] :: string)) (trimJsonWs t) = Some (v, [])"
    by simp
  then have "parseValue (Suc (length (trimJsonWs t))) (trimJsonWs t) = Some (v, [])"
    by (rule parseValue_fuel_mono) simp
  then show ?thesis by (simp add: JSON_parse_def)
qed

lemma replaceAll_id:
  "(\<And>u. suffix u t \<Longrightarrow> m u = None) \<Longrightarrow> replaceAll m rep t = t"
proof (induction t)
  case Nil
  then show ?case by simp
next
  case (Cons c cs)
  have "m (c # cs) = None" by (rule Cons.prems) simp
  moreover have "replaceAll m rep cs = cs"
    by (rule Cons.IH) (simp add: Cons.prems suffix_ConsI)
  ultimately show ?case by simp
qed

lemma prefix_suffix_sublist: "prefix p u \<Longrightarrow> suffix u t \<Longrightarrow> sublist p t"
  by (auto simp: prefix_def suffix_def sublist_def)

lemma matchFence_prefix: "matchFence u = Some k \<Longrightarrow> prefix fence u"
  by (cases u rule: matchFence.cases) (auto simp: fence_def split: if_splits)

lemma matchFenceJson_prefix: "matchFenceJson u = Some k \<Longrightarrow> prefix fence u"
  by (cases u rule: matchFenceJson.cases) (auto simp: fence_def split: if_splits)

lemma matchLiteral_prefix: "matchLiteral pat u = Some k \<Longrightarrow> prefix pat u"
  by (simp add: matchLiteral_def split: if_splits)

lemma matchTag_prefix:
  assumes "matchTag u = Some k"
  shows "\<exists>body. body \<noteq> [] \<and> CHR ''>'' \<notin> set body \<and> prefix (CHR ''<'' # body @ ''>'') u"
proof (cases u)
  case Nil
  with assms show ?thesis by simp
next
  case (Cons c rest)
  let ?body = "takeWhile (\<lambda>x. x \<noteq> CHR ''>'') rest"
  from assms Cons have c: "c = CHR ''<''" and ne: "?body \<noteq> []" and lt: "length ?body < length rest"
    by (auto simp: Let_def split: if_splits)
  have "rest = ?body @ dropWhile (\<lambda>x. x \<noteq> CHR ''>'') rest" by simp
  moreover from lt have "dropWhile (\<lambda>x. x \<noteq> CHR ''>'') rest \<noteq> []"
    by (metis append_Nil2 calculation less_irrefl)
  then obtain y ys where d: "dropWhile (\<lambda>x. x \<noteq> CHR ''>'') rest = y # ys"
    by (cases "dropWhile (\<lambda>x. x \<noteq> CHR ''>'') rest") auto
  then have "y = CHR ''>''" using hd_dropWhile[of "\<lambda>x. x \<noteq> CHR ''>''" rest] by auto
  ultimately have "rest = ?body @ CHR ''>'' # ys" using d by simp
  then have "prefix (CHR ''<'' # ?body @ ''>'') u"
    unfolding Cons c by (metis Cons_eq_appendI append_Cons append_Nil append_assoc prefixI Cons_prefix_Cons)
  moreover have "CHR ''>'' \<notin> set ?body" by (auto dest: set_takeWhileD)
  ultimately show ?thesis using ne by blast
qed


lemma trimJsonWs_decomp:
  "\<exists>ws1 ws2. t = ws1 @ trimJsonWs t @ ws2 \<and> (\<forall>c\<in>set ws1. isJsonWs c) \<and> (\<forall>c\<in>set ws2. isJsonWs c)"
proof -
  let ?u = "skipWs t"
  let ?ws1 = "takeWhile isJsonWs t"
  let ?ws2 = "rev (takeWhile isJsonWs (rev ?u))"
  have 1: "t = ?ws1 @ ?u" by (simp add: skipWs_def)
  have "rev (dropWhile isJsonWs (rev ?u)) @ rev (takeWhile isJsonWs (rev ?u))
      = rev (takeWhile isJsonWs (rev ?u) @ dropWhile isJsonWs (rev ?u))"
    by (simp only: rev_append)
  also have "\<dots> = ?u" by (simp only: takeWhile_dropWhile_id rev_rev_ident)
  finally have 2: "?u = trimJsonWs t @ ?ws2"
    by (simp only: trimJsonWs_def skipWs_def)
  have "t = ?ws1 @ trimJsonWs t @ ?ws2" using 1 2 by simp
  moreover have "\<forall>c\<in>set ?ws1. isJsonWs c" by (auto dest: set_takeWhileD)
  moreover have "\<forall>c\<in>set ?ws2. isJsonWs c" by (auto dest: set_takeWhileD)
  ultimately show ?thesis by blast
qed

lemma indexOf_after:
  assumes "\<forall>c\<in>set ws. c \<noteq> a" and "a \<in> set (ws @ ys)"
  shows "\<exists>j. indexOf a (ws @ ys) = Some (length ws + j)"
  using assms by (simp add: indexOf_def takeWhile_append2)

lemma indexOf_here:
  assumes "\<forall>c\<in>set ws. c \<noteq> a"
  shows "indexOf a (ws @ a # ys) = Some (length ws)"
  using assms by (simp add: indexOf_def takeWhile_append2)

lemma cut_start:
  assumes "\<forall>c\<in>set ws. c \<noteq> a \<and> c \<noteq> b"
  shows "(case minIndex (indexOf a (ws @ a # ys)) (indexOf b (ws @ a # ys)) of
            None \<Rightarrow> ws @ a # ys | Some i \<Rightarrow> drop i (ws @ a # ys)) = a # ys"
proof -
  have ia: "indexOf a (ws @ a # ys) = Some (length ws)" using assms by (simp add: indexOf_here)
  show ?thesis
  proof (cases "b \<in> set (ws @ a # ys)")
    case True
    with assms indexOf_after[of ws b "a # ys"] obtain j where
      "indexOf b (ws @ a # ys) = Some (length ws + j)" by auto
    with ia show ?thesis by simp
  next
    case False
    then have "indexOf b (ws @ a # ys) = None" by (simp add: indexOf_def)
    with ia show ?thesis by simp
  qed
qed

lemma lastIndexOf_here:
  assumes "\<forall>c\<in>set ws. c \<noteq> a"
  shows "lastIndexOf a (pre @ a # ws) = int (length pre)"
proof -
  have "takeWhile (\<lambda>x. x \<noteq> a) (rev ws @ a # rev pre)
      = rev ws @ takeWhile (\<lambda>x. x \<noteq> a) (a # rev pre)"
    by (rule takeWhile_append2) (use assms in auto)
  then have "takeWhile (\<lambda>x. x \<noteq> a) (rev ws @ a # rev pre) = rev ws" by simp
  then show ?thesis by (simp add: lastIndexOf_def)
qed

lemma lastIndexOf_before:
  assumes "\<forall>c\<in>set ws. c \<noteq> b" and "a \<noteq> b"
  shows "lastIndexOf b (pre @ a # ws) < int (length pre)"
proof (cases "b \<in> set (pre @ a # ws)")
  case False
  then show ?thesis by (simp add: lastIndexOf_def)
next
  case True
  have "takeWhile (\<lambda>x. x \<noteq> b) (rev ws @ a # rev pre)
      = rev ws @ takeWhile (\<lambda>x. x \<noteq> b) (a # rev pre)"
    by (rule takeWhile_append2) (use assms in auto)
  then have "takeWhile (\<lambda>x. x \<noteq> b) (rev ws @ a # rev pre)
      = rev ws @ a # takeWhile (\<lambda>x. x \<noteq> b) (rev pre)"
    using assms(2) by simp
  then show ?thesis using True by (simp add: lastIndexOf_def)
qed

lemma cut_end:
  assumes "\<forall>c\<in>set ws. c \<noteq> a \<and> c \<noteq> b" and "a \<noteq> b"
  shows "(let jsonEnd = max (lastIndexOf a (pre @ a # ws)) (lastIndexOf b (pre @ a # ws))
          in if jsonEnd \<noteq> - 1 then take (nat (jsonEnd + 1)) (pre @ a # ws) else pre @ a # ws)
         = pre @ [a]"
proof -
  have la: "lastIndexOf a (pre @ a # ws) = int (length pre)" using assms by (simp add: lastIndexOf_here)
  have lb: "lastIndexOf b (pre @ a # ws) < int (length pre)"
    using assms by (intro lastIndexOf_before) auto
  from la lb have "max (lastIndexOf a (pre @ a # ws)) (lastIndexOf b (pre @ a # ws)) = int (length pre)"
    by simp
  moreover have "nat (int (length pre) + 1) = Suc (length pre)" by simp
  ultimately show ?thesis by (simp add: Let_def)
qed

lemma jsonWs_not_bracket:
  "isJsonWs c \<Longrightarrow> c \<noteq> CHR ''['' \<and> c \<noteq> CHR ''{'' \<and> c \<noteq> CHR '']'' \<and> c \<noteq> CHR ''}''"
  by (auto simp: isJsonWs_def)

lemma cutToBrackets_array:
  assumes "\<forall>c\<in>set ws1. isJsonWs c" and "\<forall>c\<in>set ws2. isJsonWs c"
  shows "cutToBrackets (ws1 @ (CHR ''['' # mid @ [CHR '']'']) @ ws2) = CHR ''['' # mid @ [CHR '']'']"
proof -
  let ?t = "ws1 @ (CHR ''['' # mid @ [CHR '']'']) @ ws2"
  have n1: "\<forall>c\<in>set ws1. c \<noteq> CHR ''['' \<and> c \<noteq> CHR ''{''"
  proof
    fix c assume "c \<in> set ws1"
    with assms(1) have "isJsonWs c" by (rule bspec)
    then show "c \<noteq> CHR ''['' \<and> c \<noteq> CHR ''{''" by (simp add: jsonWs_not_bracket)
  qed
  have n2: "\<forall>c\<in>set ws2. c \<noteq> CHR '']'' \<and> c \<noteq> CHR ''}''"
  proof
    fix c assume "c \<in> set ws2"
    with assms(2) have "isJsonWs c" by (rule bspec)
    then show "c \<noteq> CHR '']'' \<and> c \<noteq> CHR ''}''" by (simp add: jsonWs_not_bracket)
  qed
  have d: "CHR '']'' \<noteq> CHR ''}''" by simp
  have t: "?t = ws1 @ CHR ''['' # (mid @ [CHR '']''] @ ws2)" by simp
  have 1: "(case minIndex (indexOf (CHR ''['') ?t) (indexOf (CHR ''{'') ?t) of
            None \<Rightarrow> ?t | Some i \<Rightarrow> drop i ?t) = CHR ''['' # (mid @ [CHR '']''] @ ws2)"
    unfolding t by (rule cut_start[OF n1])
  have u: "CHR ''['' # (mid @ [CHR '']''] @ ws2) = (CHR ''['' # mid) @ CHR '']'' # ws2" by simp
  have 2: "(let jsonEnd = max (lastIndexOf (CHR '']'') ((CHR ''['' # mid) @ CHR '']'' # ws2))
                              (lastIndexOf (CHR ''}'') ((CHR ''['' # mid) @ CHR '']'' # ws2))
          in if jsonEnd \<noteq> - 1 then take (nat (jsonEnd + 1)) ((CHR ''['' # mid) @ CHR '']'' # ws2)
             else (CHR ''['' # mid) @ CHR '']'' # ws2)
         = (CHR ''['' # mid) @ [CHR '']'']"
    by (rule cut_end[OF n2 d])
  have "cutToBrackets ?t = (CHR ''['' # mid) @ [CHR '']'']"
    unfolding cutToBrackets_def 1 u using 2 by (simp only: Let_def)
  then show ?thesis by simp
qed

lemma array_shape:
  assumes "JSON_parse t = Some (JArray vs)"
  shows "\<exists>mid. trimJsonWs t = CHR ''['' # mid @ [CHR '']'']"
proof -
  let ?s = "trimJsonWs t"
  from assms have p: "parseValue (Suc (length ?s)) ?s = Some (JArray vs, [])"
    by (auto simp: JSON_parse_def Let_def split: option.splits if_splits)
  then obtain c cs where s: "?s = c # cs"
    by (cases ?s) (auto simp: parseValue.simps)
  from parseValue_step[OF p[unfolded s]] have c: "c = CHR ''[''" by auto
  from parse_suffix[of "Suc (length ?s)" ?s "JArray vs" "[]"] p
  have "suffix [CHR '']''] ?s" by simp
  then obtain pre where pre: "?s = pre @ [CHR '']'']" by (auto simp: suffix_def)
  have "pre \<noteq> []"
  proof
    assume "pre = []"
    with pre s c show False by simp
  qed
  then obtain mid where "pre = CHR ''['' # mid"
    using pre s c by (cases pre) auto
  with pre show ?thesis by simp
qed

lemma trim_bracketed: "trim (CHR ''['' # mid @ [CHR '']'']) = CHR ''['' # mid @ [CHR '']'']"
  by (simp add: trim_def isWhiteSpace_def)

lemma trimJsonWs_bracketed:
  "trimJsonWs (CHR ''['' # mid @ [CHR '']'']) = CHR ''['' # mid @ [CHR '']'']"
  by (simp add: trimJsonWs_def skipWs_def isJsonWs_def)

lemma replaceLiteral_id:
  assumes "\<not> sublist pat s"
  shows "replaceAll (matchLiteral pat) rep s = s"
proof (rule replaceAll_id)
  fix u assume u: "suffix u s"
  show "matchLiteral pat u = None"
  proof (cases "matchLiteral pat u")
    case (Some k)
    from prefix_suffix_sublist[OF matchLiteral_prefix[OF Some] u] assms show ?thesis by simp
  qed simp
qed

lemma fixEntities_id:
  assumes "\<forall>e\<in>set entities. \<not> sublist e s"
  shows "fixEntities s = s"
proof -
  from assms have "\<not> sublist ''&quot;'' s" "\<not> sublist ''&amp;'' s" "\<not> sublist ''&lt;'' s"
    "\<not> sublist ''&gt;'' s" "\<not> sublist ''&apos;'' s"
    by (simp_all add: entities_def)
  then show ?thesis by (simp add: fixEntities_def replaceLiteral_id)
qed

lemma stripFences_id:
  assumes "\<not> sublist fence t"
  shows "stripFences t = t"
proof -
  have 1: "replaceAll matchFenceJson [] t = t"
  proof (rule replaceAll_id)
    fix u assume u: "suffix u t"
    show "matchFenceJson u = None"
    proof (cases "matchFenceJson u")
      case (Some k)
      from prefix_suffix_sublist[OF matchFenceJson_prefix[OF Some] u] assms show ?thesis by simp
    qed simp
  qed
  have 2: "replaceAll matchFence [] t = t"
  proof (rule replaceAll_id)
    fix u assume u: "suffix u t"
    show "matchFence u = None"
    proof (cases "matchFence u")
      case (Some k)
      from prefix_suffix_sublist[OF matchFence_prefix[OF Some] u] assms show ?thesis by simp
    qed simp
  qed
  show ?thesis by (simp add: stripFences_def 1 2)
qed

lemma removeTags_id:
  assumes "\<forall>body. body \<noteq> [] \<and> CHR ''>'' \<notin> set body \<longrightarrow> \<not> sublist (CHR ''<'' # body @ ''>'') s"
  shows "removeTags s = s"
  unfolding removeTags_def
proof (rule replaceAll_id)
  fix u assume u: "suffix u s"
  show "matchTag u = None"
  proof (cases "matchTag u")
    case (Some k)
    from matchTag_prefix[OF Some] obtain body where
      b: "body \<noteq> []" "CHR ''>'' \<notin> set body" "prefix (CHR ''<'' # body @ ''>'') u"
      by auto
    from prefix_suffix_sublist[OF b(3) u] assms b(1,2) show ?thesis by simp
  qed simp
qed

text \<open>
  C1 as stated fails: the cleaning has no direct-parse path. It runs on every text, and
  a text that already parses is changed when a string in it holds something the
  cleaning removes or rewrites. Here the tag expression removes \<open><2 and 3>\<close> from a
  question, so the record returned differs from the record of a direct parse.
\<close>

theorem clean_alters_valid_json_counterexample:
  \<open>JSON_parse ''[{"id":1,"question":"Is 1<2 and 3>2?"}]''
     = Some (JArray [JObject [(map of_char ''id'', JNumber ''1''),
                              (map of_char ''question'', JString (map of_char ''Is 1<2 and 3>2?''))]])
   \<and> cleanJsonResponse ''[{"id":1,"question":"Is 1<2 and 3>2?"}]''
     = Inr ''[{"id":1,"question":"Is 12?"}]''
   \<and> JSON_parse ''[{"id":1,"question":"Is 12?"}]''
     = Some (JArray [JObject [(map of_char ''id'', JNumber ''1''),
                              (map of_char ''question'', JString (map of_char ''Is 12?''))]])\<close>
  by code_simp

text \<open>
  C1, amended. For every text that already parses as a JSON array and contains no
  code fence (three backquotes), none of the entities \<open>&quot; &amp; &lt; &gt; &apos;\<close>
  and no tag (a \<open><\<close>, one or more characters other than \<open>>\<close>, then \<open>>\<close>),
  \<open>cleanJsonResponse\<close> returns the text with the whitespace around it removed and
  nothing else changed, and that text parses to the same array as the original.
\<close>

theorem clean_keeps_unmarked_arrays:
  "JSON_parse t = Some (JArray vs) \<and> \<not> sublist fence t
     \<and> (\<forall>e\<in>set entities. \<not> sublist e t)
     \<and> (\<forall>body. body \<noteq> [] \<and> CHR ''>'' \<notin> set body \<longrightarrow> \<not> sublist (CHR ''<'' # body @ ''>'') t)
   \<longrightarrow> cleanJsonResponse t = Inr (trimJsonWs t)
       \<and> JSON_parse (trimJsonWs t) = Some (JArray vs)"
proof
  assume a: "JSON_parse t = Some (JArray vs) \<and> \<not> sublist fence t
     \<and> (\<forall>e\<in>set entities. \<not> sublist e t)
     \<and> (\<forall>body. body \<noteq> [] \<and> CHR ''>'' \<notin> set body \<longrightarrow> \<not> sublist (CHR ''<'' # body @ ''>'') t)"
  then have parses: "JSON_parse t = Some (JArray vs)" and nofence: "\<not> sublist fence t"
    and noent: "\<forall>e\<in>set entities. \<not> sublist e t"
    and notag: "\<forall>body. body \<noteq> [] \<and> CHR ''>'' \<notin> set body \<longrightarrow> \<not> sublist (CHR ''<'' # body @ ''>'') t"
    by simp_all
  let ?s = "trimJsonWs t"
  from array_shape[OF parses] obtain mid where s: "?s = CHR ''['' # mid @ [CHR '']'']" by auto
  from trimJsonWs_decomp[of t] obtain ws1 ws2 where
    t: "t = ws1 @ ?s @ ws2" and ws1: "\<forall>c\<in>set ws1. isJsonWs c" and ws2: "\<forall>c\<in>set ws2. isJsonWs c"
    by auto
  have sub: "sublist ?s t" using t by (metis sublist_appendI)
  have inh: "\<not> sublist p ?s" if "\<not> sublist p t" for p
    using that sub sublist_order.order.trans by blast
  have 1: "stripFences t = t" by (rule stripFences_id[OF nofence])
  have "cutToBrackets (ws1 @ (CHR ''['' # mid @ [CHR '']'']) @ ws2) = CHR ''['' # mid @ [CHR '']'']"
    by (rule cutToBrackets_array[OF ws1 ws2])
  then have 2: "cutToBrackets t = ?s" using t s by simp
  have 3: "fixEntities ?s = ?s" using noent inh by (intro fixEntities_id) auto
  have 4: "removeTags ?s = ?s" using notag inh by (intro removeTags_id) auto
  have 5: "trim ?s = ?s" unfolding s by (rule trim_bracketed)
  have 6: "trimJsonWs ?s = ?s" unfolding s by (rule trimJsonWs_bracketed)
  have 7: "JSON_parse ?s = Some (JArray vs)"
    using parses by (simp add: JSON_parse_def 6)
  have "cleanJsonResponse t = Inr ?s"
    by (simp add: cleanJsonResponse_def 1 2 3 4 5 7)
  with 7 show "cleanJsonResponse t = Inr ?s \<and> JSON_parse ?s = Some (JArray vs)" by simp
qed

theorem clean_keeps_unmarked_arrays_witness:
  \<open>cleanJsonResponse '' [{"id":1,"question":"Q?"}]  '' = Inr ''[{"id":1,"question":"Q?"}]''
   \<and> JSON_parse ''[{"id":1,"question":"Q?"}]''
     = Some (JArray [JObject [(map of_char ''id'', JNumber ''1''),
                              (map of_char ''question'', JString (map of_char ''Q?''))]])\<close>
proof -
  let ?t = \<open>'' [{"id":1,"question":"Q?"}]  ''\<close>
  let ?vs = "[JObject [(map of_char ''id'', JNumber ''1''),
                       (map of_char ''question'', JString (map of_char ''Q?''))]]"
  have p: "JSON_parse ?t = Some (JArray ?vs)" by code_simp
  have tr: \<open>trimJsonWs ?t = ''[{"id":1,"question":"Q?"}]''\<close> by code_simp
  have nf: "\<not> sublist fence ?t"
  proof
    assume "sublist fence ?t"
    then have "set fence \<subseteq> set ?t" by (rule set_mono_sublist)
    then show False by (simp add: fence_def)
  qed
  have ne: "\<forall>e\<in>set entities. \<not> sublist e ?t"
  proof
    fix e assume e: "e \<in> set entities"
    show "\<not> sublist e ?t"
    proof
      assume "sublist e ?t"
      then have "set e \<subseteq> set ?t" by (rule set_mono_sublist)
      moreover from e have "CHR ''&'' \<in> set e" by (auto simp: entities_def)
      ultimately have "CHR ''&'' \<in> set ?t" by (rule rev_subsetD[rotated])
      then show False by simp
    qed
  qed
  have nt: "\<forall>body. body \<noteq> [] \<and> CHR ''>'' \<notin> set body \<longrightarrow> \<not> sublist (CHR ''<'' # body @ ''>'') ?t"
  proof (intro allI impI notI)
    fix body assume "sublist (CHR ''<'' # body @ ''>'') ?t"
    then have "set (CHR ''<'' # body @ ''>'') \<subseteq> set ?t" by (rule set_mono_sublist)
    then have "CHR ''<'' \<in> set ?t" by (simp del: set_simps add: list.set(2))
    then show False by simp
  qed
  have h: "JSON_parse ?t = Some (JArray ?vs) \<and> \<not> sublist fence ?t
     \<and> (\<forall>e\<in>set entities. \<not> sublist e ?t)
     \<and> (\<forall>body. body \<noteq> [] \<and> CHR ''>'' \<notin> set body \<longrightarrow> \<not> sublist (CHR ''<'' # body @ ''>'') ?t)"
    using p nf ne nt by (intro conjI)
  have "cleanJsonResponse ?t = Inr (trimJsonWs ?t) \<and> JSON_parse (trimJsonWs ?t) = Some (JArray ?vs)"
    by (rule clean_keeps_unmarked_arrays[where t = ?t and vs = ?vs, THEN mp, OF h])
  then show ?thesis unfolding tr .
qed

text \<open>
  C9 as stated fails: for the array followed by one extra closing bracket,
  \<open>cleanJsonResponse\<close> returns no record.
\<close>

theorem extra_bracket_counterexample:
  \<open>recordsOf (cleanJsonResponse ''[{"id":1,"question":"Q?"}] ]'') = None\<close>
  by code_simp

text \<open>
  C9, amended. For that input the cut after the last \<open>]\<close> or \<open>}\<close> removes nothing,
  because the last closing bracket of the text is the extra one; the text does not
  parse, and \<open>cleanJsonResponse\<close> raises the syntax error. (Without the extra bracket
  the same array comes back with its one record.)
\<close>

theorem extra_bracket_is_kept:
  \<open>cutToBrackets ''[{"id":1,"question":"Q?"}] ]'' = ''[{"id":1,"question":"Q?"}] ]''
   \<and> JSON_parse ''[{"id":1,"question":"Q?"}] ]'' = None
   \<and> cleanJsonResponse ''[{"id":1,"question":"Q?"}] ]'' = Inl SyntaxError
   \<and> recordsOf (cleanJsonResponse ''[{"id":1,"question":"Q?"}]'')
     = Some [JObject [(map of_char ''id'', JNumber ''1''),
                      (map of_char ''question'', JString (map of_char ''Q?''))]]\<close>
  by code_simp

end
